theory Spec2Isabelle
  imports Complex_Main "HOL-Library.AList" "HOL-Library.Sublist" "HOL-Library.Log_Nat"
begin

section \<open>Numbers\<close>

text \<open>
  The component computes on JavaScript numbers. A finite number is modelled by the
  rational it denotes, and every arithmetic result passes through a rounding function
  \<open>rnd\<close> that the definitions take as their first argument: \<open>exact\<close> is arithmetic
  without rounding, \<open>fl64\<close> is IEEE 754 binary64 with round-to-nearest, ties to even
  (53 significant bits, gradual underflow below \<open>2 powi (-1022)\<close>; overflow to
  infinity and NaN are outside the model). \<open>Math.floor\<close> and \<open>Math.ceil\<close> are exact
  on finite numbers. A level's \<open>price\<close> and \<open>volume\<close> are the values that
  \<open>parseFloat\<close> returns for it.
\<close>

definition exact :: "rat \<Rightarrow> rat" where
  "exact x = x"

definition round_half_even :: "rat \<Rightarrow> int" where
  "round_half_even x =
     (let f = \<lfloor>x\<rfloor>; d = x - of_int f
      in if d < 1 / 2 then f
         else if 1 / 2 < d then f + 1
         else if even f then f else f + 1)"

text \<open>The exponent \<open>k\<close> with \<open>2 powi k \<le> x < 2 powi (k + 1)\<close>, for \<open>0 < x\<close>.\<close>

definition ilog2 :: "rat \<Rightarrow> int" where
  "ilog2 x =
     (let (p, q) = quotient_of x; k = bitlen p - bitlen q
      in if 2 powi k \<le> x then k else k - 1)"

text \<open>
  The exponent of the last place of a positive number: 52 below its leading bit, and not
  below \<open>- 1074\<close>, the exponent of the smallest subnormal number.
\<close>

definition binade :: "rat \<Rightarrow> int" where
  "binade x = max (ilog2 x - 52) (- 1074)"

definition fl64 :: "rat \<Rightarrow> rat" where
  "fl64 x =
     (if x = 0 then 0
      else let e = binade \<bar>x\<bar>;
               m = round_half_even (\<bar>x\<bar> / 2 powi e)
           in sgn x * of_int m * 2 powi e)"

section \<open>Data model\<close>

record level =
  price :: rat
  volume :: rat

record snapshot =
  bids :: "level list"
  asks :: "level list"
  timestamp :: int

record aggregated = level +
  total :: rat

section \<open>Tick aggregation\<close>

text \<open>\<open>Math.floor(price / tickSize) * tickSize\<close> for bids, \<open>Math.ceil\<close> for asks.\<close>

definition roundedPrice :: "(rat \<Rightarrow> rat) \<Rightarrow> bool \<Rightarrow> rat \<Rightarrow> rat \<Rightarrow> rat" where
  "roundedPrice rnd isBid tickSize p =
     (if isBid then rnd (of_int \<lfloor>rnd (p / tickSize)\<rfloor> * tickSize)
      else rnd (of_int \<lceil>rnd (p / tickSize)\<rceil> * tickSize))"

text \<open>
  The \<open>Map\<close> of the source keeps its keys in insertion order; \<open>set\<close> on a key that is
  present replaces the value in place, on a new key it appends. That is
  \<open>AList.update\<close> on an association list.
\<close>

definition agg_step ::
  "(rat \<Rightarrow> rat) \<Rightarrow> rat \<Rightarrow> bool \<Rightarrow> (rat \<times> rat) list \<Rightarrow> level \<Rightarrow> (rat \<times> rat) list" where
  "agg_step rnd tickSize isBid aggregatedMap lv =
     (let rp = roundedPrice rnd isBid tickSize (price lv)
      in case map_of aggregatedMap rp of
           Some v \<Rightarrow> AList.update rp (rnd (v + volume lv)) aggregatedMap
         | None \<Rightarrow> AList.update rp (volume lv) aggregatedMap)"

definition entry :: "rat \<times> rat \<Rightarrow> aggregated" where
  "entry kv = \<lparr>price = fst kv, volume = snd kv, total = 0\<rparr>"

definition aggregateByTickSize ::
  "(rat \<Rightarrow> rat) \<Rightarrow> level list \<Rightarrow> rat \<Rightarrow> bool \<Rightarrow> aggregated list" where
  "aggregateByTickSize rnd orders tickSize isBid =
     (let aggregatedMap = foldl (agg_step rnd tickSize isBid) [] orders
      in if isBid then sort_key (\<lambda>a. - price a) (map entry aggregatedMap)
         else sort_key (\<lambda>a. price a) (map entry aggregatedMap))"

section \<open>The depth ladders\<close>

definition filterByRange :: "(rat \<Rightarrow> rat) \<Rightarrow> rat \<Rightarrow> rat \<Rightarrow> level list \<Rightarrow> level list" where
  "filterByRange rnd depthRangePercent midPriceCalc orders =
     (if 20 \<le> depthRangePercent then orders
      else let rangeLimit = rnd (midPriceCalc * rnd (depthRangePercent / 100))
           in filter (\<lambda>l. \<bar>rnd (price l - midPriceCalc)\<bar> \<le> rangeLimit) orders)"

text \<open>The two \<open>forEach\<close> loops that write \<open>total\<close>, with the running sum.\<close>

fun cumulate :: "(rat \<Rightarrow> rat) \<Rightarrow> rat \<Rightarrow> aggregated list \<Rightarrow> aggregated list" where
  "cumulate rnd cum [] = []"
| "cumulate rnd cum (b # bs) =
     (let cum' = rnd (cum + volume b) in b\<lparr>total := cum'\<rparr> # cumulate rnd cum' bs)"

record ladders =
  ladder_bids :: "aggregated list"
  ladder_asks :: "aggregated list"
  maxTotal :: rat

text \<open>
  \<open>formatOrderbookData\<close> reads the component's \<open>orderbook\<close>, \<open>depthRangePercent\<close>,
  \<open>tickSize\<close> and \<open>depth\<close>; they are arguments here. A side that is absent from the
  snapshot is the empty list.
\<close>

definition formatOrderbookData ::
  "(rat \<Rightarrow> rat) \<Rightarrow> snapshot option \<Rightarrow> rat \<Rightarrow> rat \<Rightarrow> nat \<Rightarrow> ladders" where
  "formatOrderbookData rnd orderbook depthRangePercent tickSize depth =
     (case orderbook of
        None \<Rightarrow> \<lparr>ladder_bids = [], ladder_asks = [], maxTotal = 0\<rparr>
      | Some ob \<Rightarrow>
          let rawBids = bids ob;
              rawAsks = asks ob;
              bestBidPrice = (if rawBids \<noteq> [] then price (hd rawBids) else 0);
              bestAskPrice = (if rawAsks \<noteq> [] then price (hd rawAsks) else 0);
              midPriceCalc = rnd (rnd (bestBidPrice + bestAskPrice) / 2);
              filteredBids = filterByRange rnd depthRangePercent midPriceCalc rawBids;
              filteredAsks = filterByRange rnd depthRangePercent midPriceCalc rawAsks;
              bs = rev (take depth (aggregateByTickSize rnd filteredBids tickSize True));
              as = take depth (aggregateByTickSize rnd filteredAsks tickSize False);
              bs' = cumulate rnd 0 bs;
              as' = cumulate rnd 0 as
          in \<lparr>ladder_bids = bs', ladder_asks = as',
              maxTotal = max (if bs' \<noteq> [] then total (last bs') else 0)
                             (if as' \<noteq> [] then total (last as') else 0)\<rparr>)"


section \<open>Properties of the rounding function\<close>

text \<open>
  What the theorems below ask of \<open>rnd\<close>: it is monotone, it returns its argument when
  that is already a result of rounding, and it keeps zero.
\<close>

definition rounding :: "(rat \<Rightarrow> rat) \<Rightarrow> bool" where
  "rounding rnd =
     ((\<forall>x y. x \<le> y \<longrightarrow> rnd x \<le> rnd y) \<and> (\<forall>x. rnd (rnd x) = rnd x) \<and> rnd 0 = 0)"

text \<open>A volume the aggregation can hold: non-negative and a number of the arithmetic.\<close>

definition good_volume :: "(rat \<Rightarrow> rat) \<Rightarrow> rat \<Rightarrow> bool" where
  "good_volume rnd v = (0 \<le> v \<and> rnd v = v)"

section \<open>Example inputs\<close>

definition two_level_book :: snapshot where
  "two_level_book =
     \<lparr>bids = [\<lparr>price = 100, volume = 1\<rparr>, \<lparr>price = 99, volume = 2\<rparr>],
      asks = [\<lparr>price = 101, volume = 1\<rparr>, \<lparr>price = 102, volume = 2\<rparr>],
      timestamp = 0\<rparr>"


section \<open>Replay: downsampling of the fetched history\<close>

text \<open>
  The history fetch keeps the fetched array when it has at most \<open>MAX_SNAPSHOTS\<close>
  entries and otherwise filters it by index. \<open>data.length / MAX_SNAPSHOTS\<close> divides an
  array length (below \<open>2 ^ 32\<close>), where the binary64 quotient has the ceiling of the
  exact quotient (\<open>stride_binary64\<close> below), so the stride is taken in exact arithmetic.
\<close>

definition MAX_SNAPSHOTS :: nat where
  "MAX_SNAPSHOTS = 300"

definition stride :: "nat \<Rightarrow> nat" where
  "stride n = nat \<lceil>(of_nat n :: rat) / of_nat MAX_SNAPSHOTS\<rceil>"

definition downsample :: "'a list \<Rightarrow> 'a list" where
  "downsample data =
     (if MAX_SNAPSHOTS < length data
      then let step = stride (length data)
           in map fst (filter (\<lambda>(_, idx). idx mod step = 0) (zip data [0..<length data]))
      else data)"


section \<open>Replay: seek and jump\<close>

text \<open>
  The replay state of the component. \<open>currentTime\<close> is \<open>null\<close> or a \<open>Date\<close>, held
  as its milliseconds; a snapshot's \<open>timestamp\<close> is the milliseconds that
  \<open>new Date(timestamp).getTime()\<close> returns for it. Reading a property of
  \<open>history[i]\<close> for an index outside the array throws a \<open>TypeError\<close>.
\<close>

record replay =
  history :: "snapshot list"
  historyIndex :: int
  orderbook :: "snapshot option"
  currentTime :: "int option"
  isPlaying :: bool

datatype error = TypeError

text \<open>The three setters that show the snapshot at an index.\<close>

definition show_index :: "replay \<Rightarrow> int \<Rightarrow> replay" where
  "show_index st i =
     st\<lparr>historyIndex := i,
        orderbook := Some (history st ! nat i),
        currentTime := Some (timestamp (history st ! nat i))\<rparr>"

text \<open>
  \<open>handleSeek\<close>: the argument is the integer that \<open>parseInt\<close> returns for the slider's
  value. The index is stored first; the view follows only when \<open>history[index]\<close> exists.
\<close>

definition handleSeek :: "int \<Rightarrow> replay \<Rightarrow> replay" where
  "handleSeek index st =
     (if 0 \<le> index \<and> index < int (length (history st))
      then show_index st index
      else st\<lparr>historyIndex := index\<rparr>)"

text \<open>The loop of \<open>handleJumpBack\<close>, from \<open>i\<close> downward; \<open>newIndex\<close> is the loop's variable.\<close>

function back_scan :: "snapshot list \<Rightarrow> int \<Rightarrow> int \<Rightarrow> int \<Rightarrow> error + int" where
  "back_scan hist targetTime newIndex i =
     (if 0 \<le> i then
        if i < int (length hist) then
          if timestamp (hist ! nat i) \<le> targetTime then Inr i
          else back_scan hist targetTime i (i - 1)
        else Inl TypeError
      else Inr newIndex)"
  by pat_completeness auto
termination
  by (relation "measure (\<lambda>(hist, targetTime, newIndex, i). nat (i + 1))") auto

text \<open>The loop of \<open>handleJumpForward\<close>, from \<open>i\<close> upward.\<close>

function forward_scan :: "snapshot list \<Rightarrow> int \<Rightarrow> int \<Rightarrow> int \<Rightarrow> error + int" where
  "forward_scan hist targetTime newIndex i =
     (if i < int (length hist) then
        if 0 \<le> i then
          if targetTime \<le> timestamp (hist ! nat i) then Inr i
          else forward_scan hist targetTime i (i + 1)
        else Inl TypeError
      else Inr newIndex)"
  by pat_completeness auto
termination
  by (relation "measure (\<lambda>(hist, targetTime, newIndex, i). nat (int (length hist) - i))") auto

definition jump_to :: "replay \<Rightarrow> int \<Rightarrow> error + replay" where
  "jump_to st newIndex =
     (if newIndex \<noteq> historyIndex st then
        if 0 \<le> newIndex \<and> newIndex < int (length (history st))
        then Inr (show_index st newIndex)
        else Inl TypeError
      else Inr st)"

definition handleJumpBack :: "replay \<Rightarrow> error + replay" where
  "handleJumpBack st =
     (if history st = [] then Inr st
      else case currentTime st of
        None \<Rightarrow> Inr st
      | Some t \<Rightarrow>
          (case back_scan (history st) (t - 10000) (historyIndex st) (historyIndex st - 1) of
             Inl e \<Rightarrow> Inl e
           | Inr newIndex \<Rightarrow> jump_to st newIndex))"

definition handleJumpForward :: "replay \<Rightarrow> error + replay" where
  "handleJumpForward st =
     (if history st = [] then Inr st
      else case currentTime st of
        None \<Rightarrow> Inr st
      | Some t \<Rightarrow>
          (case forward_scan (history st) (t + 10000) (historyIndex st) (historyIndex st + 1) of
             Inl e \<Rightarrow> Inl e
           | Inr newIndex \<Rightarrow> jump_to st newIndex))"

text \<open>
  The caller of \<open>handleSeek\<close> is the timeline slider, a range input with \<open>min = 0\<close>
  and \<open>max = Math.max(history.length - 1, 0)\<close> that is disabled while the history is
  empty (and while it loads): the values it can hand to \<open>handleSeek\<close>.
\<close>

definition slider_offers :: "replay \<Rightarrow> int \<Rightarrow> bool" where
  "slider_offers st i =
     (history st \<noteq> [] \<and> 0 \<le> i \<and> i \<le> max (int (length (history st)) - 1) 0)"

definition snap :: "int \<Rightarrow> snapshot" where
  "snap t = \<lparr>bids = [], asks = [], timestamp = t\<rparr>"

definition three_seconds :: "int \<Rightarrow> replay" where
  "three_seconds i =
     \<lparr>history = [snap 0, snap 1000, snap 2000], historyIndex = i,
      orderbook = Some (snap (1000 * i)), currentTime = Some (1000 * i), isPlaying = False\<rparr>"

definition ten_seconds :: "int \<Rightarrow> replay" where
  "ten_seconds i =
     \<lparr>history = [snap 0, snap 5000, snap 10000, snap 15000], historyIndex = i,
      orderbook = Some (snap (5000 * i)), currentTime = Some (5000 * i), isPlaying = True\<rparr>"


section \<open>The anomaly detector\<close>

text \<open>
  The effect that runs on every live snapshot, after its guards (a current and a previous
  snapshot exist, the component is not in replay mode, the snapshot was not processed
  before). \<open>book\<close> and \<open>prevBook\<close> are the component's \<open>orderbook\<close> and
  \<open>prevOrderbook\<close>, \<open>now\<close> is the value of \<open>Date.now()\<close>, in milliseconds. The heatmap window,
  which the effect also updates, and the timer that clears the flashes are left out.
\<close>

definition LARGE_ORDER_THRESHOLD :: rat where
  "LARGE_ORDER_THRESHOLD = 2"

definition WHALE_THRESHOLD :: rat where
  "WHALE_THRESHOLD = 5"

definition SPOOF_DETECTION_WINDOW :: int where
  "SPOOF_DETECTION_WINDOW = 3000"

datatype side = Bid | Ask

datatype change_type = Added | Removed

record flag =
  type :: change_type
  side :: side

record sample =
  time :: int
  vol :: rat

record alert =
  alert_price :: rat
  maxVol :: rat
  alert_time :: int

text \<open>\<open>new Map(entries)\<close>: the entries are set one after the other.\<close>

definition Map_of_entries :: "('k \<times> 'v) list \<Rightarrow> ('k \<times> 'v) list" where
  "Map_of_entries es = foldl (\<lambda>m kv. AList.update (fst kv) (snd kv) m) [] es"

text \<open>\<open>xs.reduce((a, b) => a + b, 0) / xs.length\<close>, or 0 for no samples.\<close>

definition average :: "(rat \<Rightarrow> rat) \<Rightarrow> rat list \<Rightarrow> rat" where
  "average rnd xs =
     (if 0 < length xs then rnd (foldl (\<lambda>a b. rnd (a + b)) 0 xs / of_nat (length xs)) else 0)"

record detect_result =
  changes :: "(rat \<times> flag) list"
  avgSize :: rat

definition detectChanges ::
  "(rat \<Rightarrow> rat) \<Rightarrow> level list \<Rightarrow> level list \<Rightarrow> side \<Rightarrow> detect_result" where
  "detectChanges rnd current previous sd =
     (let currentMap = Map_of_entries (map (\<lambda>l. (price l, volume l)) current);
          prevMap = Map_of_entries (map (\<lambda>l. (price l, volume l)) previous);
          allSizes = map snd currentMap;
          avg = average rnd allSizes;
          threshold = rnd (avg * LARGE_ORDER_THRESHOLD);
          added = foldl (\<lambda>ch pv.
                    let prevVol = (case map_of prevMap (fst pv) of Some v \<Rightarrow> v | None \<Rightarrow> 0);
                        diff = rnd (snd pv - prevVol)
                    in if threshold < diff
                       then AList.update (fst pv) \<lparr>type = Added, side = sd\<rparr> ch else ch)
                  [] currentMap;
          removed = foldl (\<lambda>ch pv.
                    let currVol = (case map_of currentMap (fst pv) of Some v \<Rightarrow> v | None \<Rightarrow> 0);
                        diff = rnd (snd pv - currVol)
                    in if threshold < diff
                       then AList.update (fst pv) \<lparr>type = Removed, side = sd\<rparr> ch else ch)
                  added prevMap
      in \<lparr>changes = removed, avgSize = avg\<rparr>)"

definition allChanges :: "(rat \<Rightarrow> rat) \<Rightarrow> snapshot \<Rightarrow> snapshot \<Rightarrow> (rat \<times> flag) list" where
  "allChanges rnd book prevBook =
     (let bidResult = detectChanges rnd (bids book) (bids prevBook) Bid;
          askResult = detectChanges rnd (asks book) (asks prevBook) Ask
      in Map_of_entries (changes bidResult @ changes askResult))"

text \<open>\<open>push(...volumes)\<close>, then \<open>slice(-100)\<close> when more than 100 samples are held.\<close>

definition push_window :: "rat list \<Rightarrow> rat list \<Rightarrow> rat list" where
  "push_window window volumes =
     (let w = window @ volumes in if 100 < length w then drop (length w - 100) w else w)"

text \<open>A \<open>Set\<close> keeps its members in insertion order; \<open>add\<close> of a member changes nothing.\<close>

definition Set_add :: "'a \<Rightarrow> 'a list \<Rightarrow> 'a list" where
  "Set_add x s = (if x \<in> set s then s else s @ [x])"

definition newWhales :: "(rat \<Rightarrow> rat) \<Rightarrow> rat \<Rightarrow> rat \<Rightarrow> snapshot \<Rightarrow> rat list" where
  "newWhales rnd bidRollingAvg askRollingAvg book =
     (let w = foldl (\<lambda>w l. if rnd (bidRollingAvg * WHALE_THRESHOLD) < volume l
                           then Set_add (price l) w else w) [] (bids book)
      in foldl (\<lambda>w l. if rnd (askRollingAvg * WHALE_THRESHOLD) < volume l
                       then Set_add (price l) w else w) w (asks book))"

text \<open>
  The samples kept for a level's price: the stored list (or none), the sample pushed for
  the current snapshot, filtered by age.
\<close>

definition retained :: "int \<Rightarrow> (rat \<rightharpoonup> sample list) \<Rightarrow> level \<Rightarrow> sample list" where
  "retained now liquidityMap l =
     (let history = (case liquidityMap (price l) of Some h \<Rightarrow> h | None \<Rightarrow> [])
                    @ [\<lparr>time = now, vol = volume l\<rparr>]
      in filter (\<lambda>h. now - time h < SPOOF_DETECTION_WINDOW) history)"

text \<open>\<open>Math.max(...xs)\<close> and \<open>Math.min(...xs)\<close>, called on two numbers or more.\<close>

definition Math_max :: "rat list \<Rightarrow> rat" where
  "Math_max xs = foldl max (hd xs) (tl xs)"

definition Math_min :: "rat list \<Rightarrow> rat" where
  "Math_min xs = foldl min (hd xs) (tl xs)"

definition spoof_step ::
  "(rat \<Rightarrow> rat) \<Rightarrow> int \<Rightarrow> rat \<Rightarrow> (rat \<rightharpoonup> sample list) \<times> alert list \<Rightarrow> level
     \<Rightarrow> (rat \<rightharpoonup> sample list) \<times> alert list" where
  "spoof_step rnd now avgVol acc l =
     (let liquidityMap = fst acc; detectedSpoofs = snd acc;
          filtered = retained now liquidityMap l
      in if 0 < length filtered then
           let liquidityMap' = liquidityMap(price l \<mapsto> filtered)
           in if 2 \<le> length filtered then
                let maxV = Math_max (map vol filtered);
                    minV = Math_min (map vol filtered)
                in if rnd (avgVol * 3) < maxV \<and> minV < rnd (avgVol * (1 / 2)) then
                     let timeDiff = time (last filtered) - time (hd filtered)
                     in if timeDiff < SPOOF_DETECTION_WINDOW
                        then (liquidityMap',
                              detectedSpoofs @ [\<lparr>alert_price = price l, maxVol = maxV, alert_time = now\<rparr>])
                        else (liquidityMap', detectedSpoofs)
                   else (liquidityMap', detectedSpoofs)
              else (liquidityMap', detectedSpoofs)
         else (liquidityMap(price l := None), detectedSpoofs))"

record detector =
  flashingPrices :: "(rat \<times> flag) list"
  volumeHistory_bids :: "rat list"
  volumeHistory_asks :: "rat list"
  rollingAvg_bid :: rat
  rollingAvg_ask :: rat
  whaleOrders :: "rat list"
  recentLiquidity :: "rat \<rightharpoonup> sample list"
  spoofAlerts :: "alert list"

definition detect ::
  "(rat \<Rightarrow> rat) \<Rightarrow> int \<Rightarrow> snapshot \<Rightarrow> snapshot \<Rightarrow> detector \<Rightarrow> detector" where
  "detect rnd now book prevBook st =
     (let changed = allChanges rnd book prevBook;
          bidVolumes = map volume (bids book);
          askVolumes = map volume (asks book);
          vb = push_window (volumeHistory_bids st) bidVolumes;
          va = push_window (volumeHistory_asks st) askVolumes;
          bidRollingAvg = average rnd vb;
          askRollingAvg = average rnd va;
          avgVol = rnd (rnd (bidRollingAvg + askRollingAvg) / 2);
          spoof = foldl (spoof_step rnd now avgVol) (recentLiquidity st, [])
                    (bids book @ asks book)
      in st\<lparr>flashingPrices := (if changed \<noteq> [] then changed else flashingPrices st),
            volumeHistory_bids := vb,
            volumeHistory_asks := va,
            rollingAvg_bid := bidRollingAvg,
            rollingAvg_ask := askRollingAvg,
            whaleOrders := newWhales rnd bidRollingAvg askRollingAvg book,
            recentLiquidity := fst spoof,
            spoofAlerts := (if snd spoof \<noteq> [] then take 10 (snd spoof @ spoofAlerts st)
                            else spoofAlerts st)\<rparr>)"

definition fresh :: detector where
  "fresh = \<lparr>flashingPrices = [], volumeHistory_bids = [], volumeHistory_asks = [],
            rollingAvg_bid = 0, rollingAvg_ask = 0, whaleOrders = [],
            recentLiquidity = Map.empty, spoofAlerts = []\<rparr>"

definition lvl :: "rat \<Rightarrow> rat \<Rightarrow> level" where
  "lvl p v = \<lparr>price = p, volume = v\<rparr>"

definition crossed_book :: snapshot where
  "crossed_book =
     \<lparr>bids = [lvl 100 10, lvl 99 1, lvl 98 1],
      asks = [lvl 100 1, lvl 101 1, lvl 102 1], timestamp = 1000\<rparr>"

definition crossed_book_before :: snapshot where
  "crossed_book_before =
     \<lparr>bids = [lvl 100 1, lvl 99 1, lvl 98 1],
      asks = [lvl 100 10, lvl 101 1, lvl 102 1], timestamp = 0\<rparr>"

definition whale_book :: snapshot where
  "whale_book = \<lparr>bids = [lvl 100 10], asks = [lvl 101 1], timestamp = 1000\<rparr>"

definition no_book :: snapshot where
  "no_book = \<lparr>bids = [], asks = [], timestamp = 0\<rparr>"

definition bid_at_100 :: snapshot where
  "bid_at_100 = \<lparr>bids = [lvl 100 1], asks = [lvl 101 1], timestamp = 0\<rparr>"

definition bid_at_99 :: snapshot where
  "bid_at_99 = \<lparr>bids = [lvl 99 1], asks = [lvl 101 1], timestamp = 5000\<rparr>"

text \<open>What the flags of one side have in common.\<close>

definition flags_of :: "side \<Rightarrow> (rat \<times> flag) list \<Rightarrow> bool" where
  "flags_of sd ch = (distinct (map fst ch) \<and> (\<forall>kv \<in> set ch. side (snd kv) = sd))"


section \<open>Aggregating twice\<close>

text \<open>
  Aggregating the buckets again: the bucket objects are read as levels, by their
  \<open>price\<close> and \<open>volume\<close> (\<open>parseFloat\<close> returns a finite number as it is).
\<close>

definition reaggregate :: "(rat \<Rightarrow> rat) \<Rightarrow> level list \<Rightarrow> rat \<Rightarrow> bool \<Rightarrow> aggregated list" where
  "reaggregate rnd orders tickSize isBid =
     aggregateByTickSize rnd (map level.truncate (aggregateByTickSize rnd orders tickSize isBid))
       tickSize isBid"

text \<open>Rounding a bucket price again at the same tick returns it.\<close>

definition tick_stable :: "(rat \<Rightarrow> rat) \<Rightarrow> level list \<Rightarrow> rat \<Rightarrow> bool \<Rightarrow> bool" where
  "tick_stable rnd orders tickSize isBid =
     (\<forall>l \<in> set orders.
        roundedPrice rnd isBid tickSize (roundedPrice rnd isBid tickSize (price l)) =
        roundedPrice rnd isBid tickSize (price l))"






section \<open>The binary64 rounding function\<close>

text \<open>
  \<open>fl64\<close> is monotone, returns every number it has produced, and keeps zero.
\<close>

lemma rhe_of_int: "round_half_even (of_int n) = n"
  by (simp add: round_half_even_def)

lemma rhe_lower: "\<lfloor>x\<rfloor> \<le> round_half_even x"
  by (simp add: round_half_even_def Let_def)

lemma rhe_upper: "round_half_even x \<le> \<lfloor>x\<rfloor> + 1"
  by (simp add: round_half_even_def Let_def)

lemma rhe_mono:
  assumes "x \<le> y"
  shows "round_half_even x \<le> round_half_even y"
proof (cases "\<lfloor>x\<rfloor> < \<lfloor>y\<rfloor>")
  case True
  have "round_half_even x \<le> \<lfloor>x\<rfloor> + 1" by (rule rhe_upper)
  also have "\<dots> \<le> \<lfloor>y\<rfloor>" using True by simp
  also have "\<dots> \<le> round_half_even y" by (rule rhe_lower)
  finally show ?thesis .
next
  case False
  moreover have "\<lfloor>x\<rfloor> \<le> \<lfloor>y\<rfloor>" using assms by (rule floor_mono)
  ultimately have eq: "\<lfloor>x\<rfloor> = \<lfloor>y\<rfloor>" by simp
  then have "x - of_int \<lfloor>x\<rfloor> \<le> y - of_int \<lfloor>y\<rfloor>" using assms by simp
  then show ?thesis
    unfolding round_half_even_def Let_def eq by auto
qed

lemma rhe_ge: "of_int n \<le> x \<Longrightarrow> n \<le> round_half_even x"
  using rhe_mono [of "of_int n" x] by (simp add: rhe_of_int)

lemma rhe_le: "x \<le> of_int n \<Longrightarrow> round_half_even x \<le> n"
  using rhe_mono [of x "of_int n"] by (simp add: rhe_of_int)

lemma bitlen_pos:
  assumes "0 < p"
  shows "1 \<le> bitlen p"
proof -
  have "1 < (2::int) ^ nat (bitlen p)" using bitlen_bounds [OF assms] assms by linarith
  then have "0 < nat (bitlen p)" by (cases "nat (bitlen p)") simp_all
  then show ?thesis by simp
qed

lemma ilog2_bounds:
  assumes "0 < x"
  shows "2 powi ilog2 x \<le> x" and "x < 2 powi (ilog2 x + 1)"
proof -
  obtain p q where pq: "quotient_of x = (p, q)" by force
  have q: "0 < q" using quotient_of_denom_pos [OF pq] .
  have x: "x = of_int p / of_int q" using quotient_of_div [OF pq] .
  have "0 < (of_int p :: rat) / of_int q" using assms by (simp only: x)
  then have p: "0 < p" using q by (simp add: zero_less_divide_iff)
  define a where "a = nat (bitlen p - 1)"
  define b where "b = nat (bitlen q - 1)"
  have bp: "bitlen p = int a + 1" using bitlen_pos [OF p] by (simp add: a_def)
  have bq: "bitlen q = int b + 1" using bitlen_pos [OF q] by (simp add: b_def)
  have pa: "2 ^ a \<le> p" "p < 2 ^ (a + 1)"
    using bitlen_bounds [OF p] by (simp_all add: bp nat_add_distrib)
  have qb: "2 ^ b \<le> q" "q < 2 ^ (b + 1)"
    using bitlen_bounds [OF q] by (simp_all add: bq nat_add_distrib)
  have pa': "(2::rat) ^ a \<le> of_int p" "(of_int p :: rat) < 2 ^ (a + 1)"
    using pa by (metis of_int_le_iff of_int_numeral of_int_power, metis of_int_less_iff of_int_numeral of_int_power)
  have qb': "(2::rat) ^ b \<le> of_int q" "(of_int q :: rat) < 2 ^ (b + 1)"
    using qb by (metis of_int_le_iff of_int_numeral of_int_power, metis of_int_less_iff of_int_numeral of_int_power)
  have q': "(0::rat) < of_int q" using q by simp
  have lo: "(2::rat) powi (int a - int b - 1) < x"
  proof -
    have "(2::rat) powi (int a - int b - 1) = 2 ^ a / 2 ^ (b + 1)"
      by (simp add: power_int_diff)
    also have "\<dots> \<le> of_int p / 2 ^ (b + 1)" using pa'(1) by (simp add: divide_right_mono)
    also have "\<dots> < of_int p / of_int q"
      using qb'(2) q' p by (intro divide_strict_left_mono) simp_all
    finally show ?thesis by (simp add: x)
  qed
  have hi: "x < (2::rat) powi (int a - int b + 1)"
  proof -
    have "x < 2 ^ (a + 1) / of_int q" unfolding x using pa'(2) q' by (simp add: divide_strict_right_mono)
    also have "\<dots> \<le> 2 ^ (a + 1) / 2 ^ b"
      using qb'(1) q' by (intro divide_left_mono) simp_all
    also have "\<dots> = (2::rat) powi (int a - int b + 1)"
      by (simp add: power_int_diff power_int_add)
    finally show ?thesis .
  qed
  have k: "bitlen p - bitlen q = int a - int b" by (simp add: bp bq)
  have il: "ilog2 x = (if (2::rat) powi (int a - int b) \<le> x then int a - int b else int a - int b - 1)"
    by (simp add: ilog2_def pq k)
  show "2 powi ilog2 x \<le> x"
    using lo by (auto simp: il)
  show "x < 2 powi (ilog2 x + 1)"
    using hi by (auto simp: il)
qed

lemma two_powi_less_D:
  assumes "(2::rat) powi k < 2 powi j"
  shows "k < j"
proof (rule ccontr)
  assume "\<not> k < j"
  then have "j \<le> k" by simp
  then have "(2::rat) powi j \<le> 2 powi k" by (rule power_int_increasing) simp
  then show False using assms by simp
qed

lemma ilog2_unique:
  assumes "2 powi k \<le> x" "x < 2 powi (k + 1)"
  shows "ilog2 x = k"
proof -
  have pos: "0 < x" using assms(1) by (rule less_le_trans [rotated]) simp
  note b = ilog2_bounds [OF pos]
  have "(2::rat) powi k < 2 powi (ilog2 x + 1)" using assms(1) b(2) by simp
  then have 1: "k < ilog2 x + 1" by (rule two_powi_less_D)
  have "(2::rat) powi ilog2 x < 2 powi (k + 1)" using assms(2) b(1) by simp
  then have 2: "ilog2 x < k + 1" by (rule two_powi_less_D)
  show ?thesis using 1 2 by simp
qed


lemma ilog2_mono:
  assumes "0 < x" "x \<le> y"
  shows "ilog2 x \<le> ilog2 y"
proof -
  have y: "0 < y" using assms by simp
  have "(2::rat) powi ilog2 x \<le> x" using assms(1) by (rule ilog2_bounds)
  also have "x \<le> y" by fact
  also have "y < 2 powi (ilog2 y + 1)" using y by (rule ilog2_bounds)
  finally have "ilog2 x < ilog2 y + 1" by (rule two_powi_less_D)
  then show ?thesis by simp
qed

lemma binade_mono: "0 < x \<Longrightarrow> x \<le> y \<Longrightarrow> binade x \<le> binade y"
  using ilog2_mono [of x y] by (simp add: binade_def)

lemma binade_ge: "- 1074 \<le> binade x"
  by (simp add: binade_def)

lemma fl64_pos_eq:
  "0 < x \<Longrightarrow> fl64 x = of_int (round_half_even (x / 2 powi binade x)) * 2 powi binade x"
  by (simp add: fl64_def Let_def)

lemma fl64_zero: "fl64 0 = 0"
  by (simp add: fl64_def)

lemma fl64_minus: "fl64 (- x) = - fl64 x"
  by (simp add: fl64_def Let_def sgn_minus)

lemma scaled_less:
  assumes "0 < x"
  shows "x / 2 powi binade x < 2 ^ 53"
proof -
  have "x < 2 powi (ilog2 x + 1)" using assms by (rule ilog2_bounds)
  also have "(2::rat) powi (ilog2 x + 1) = 2 powi (ilog2 x - 52) * 2 ^ 53"
    by (simp add: power_int_add power_int_diff)
  also have "\<dots> \<le> 2 powi binade x * 2 ^ 53"
    by (intro mult_right_mono power_int_increasing) (simp_all add: binade_def)
  finally show ?thesis by (simp add: pos_divide_less_eq mult.commute)
qed

lemma scaled_ge:
  assumes "0 < x" "- 1074 < binade x"
  shows "2 ^ 52 \<le> x / 2 powi binade x"
proof -
  have b: "binade x = ilog2 x - 52" using assms(2) by (simp add: binade_def max_def split: if_splits)
  have "(2::rat) powi binade x * 2 ^ 52 = 2 powi ilog2 x"
    by (simp add: b power_int_diff)
  also have "\<dots> \<le> x" using assms(1) by (rule ilog2_bounds)
  finally show ?thesis by (simp add: pos_le_divide_eq mult.commute)
qed

lemma fl64_nonneg:
  assumes "0 \<le> x"
  shows "0 \<le> fl64 x"
proof (cases "x = 0")
  case True
  then show ?thesis by (simp add: fl64_zero)
next
  case False
  then have pos: "0 < x" using assms by simp
  have "(of_int 0 :: rat) \<le> x / 2 powi binade x" using pos by simp
  then have "0 \<le> round_half_even (x / 2 powi binade x)" by (rule rhe_ge)
  then show ?thesis by (simp add: fl64_pos_eq [OF pos])
qed

lemma fl64_upper:
  assumes "0 < x"
  shows "fl64 x \<le> 2 powi (binade x + 53)"
proof -
  have "x / 2 powi binade x \<le> of_int (2 ^ 53)" using scaled_less [OF assms] by simp
  then have "round_half_even (x / 2 powi binade x) \<le> 2 ^ 53" by (rule rhe_le)
  then have "(of_int (round_half_even (x / 2 powi binade x)) :: rat) \<le> 2 ^ 53"
    by (metis of_int_le_iff of_int_numeral of_int_power)
  then have "fl64 x \<le> 2 ^ 53 * 2 powi binade x"
    by (simp add: fl64_pos_eq [OF assms])
  then show ?thesis by (simp add: power_int_add mult.commute)
qed

lemma fl64_lower:
  assumes "0 < x" "- 1074 < binade x"
  shows "2 powi (binade x + 52) \<le> fl64 x"
proof -
  have "of_int (2 ^ 52) \<le> x / 2 powi binade x" using scaled_ge [OF assms] by simp
  then have "2 ^ 52 \<le> round_half_even (x / 2 powi binade x)" by (rule rhe_ge)
  then have "(2 ^ 52 :: rat) \<le> of_int (round_half_even (x / 2 powi binade x))"
    by (metis of_int_le_iff of_int_numeral of_int_power)
  then have "2 ^ 52 * 2 powi binade x \<le> fl64 x"
    by (simp add: fl64_pos_eq [OF assms(1)])
  then show ?thesis by (simp add: power_int_add mult.commute)
qed

lemma fl64_mono_pos:
  assumes "0 < x" "x \<le> y"
  shows "fl64 x \<le> fl64 y"
proof -
  have y: "0 < y" using assms by simp
  have le: "binade x \<le> binade y" using assms by (rule binade_mono)
  show ?thesis
  proof (cases "binade x = binade y")
    case True
    have "x / 2 powi binade y \<le> y / 2 powi binade y"
      using assms(2) by (simp add: divide_right_mono)
    then have "round_half_even (x / 2 powi binade y) \<le> round_half_even (y / 2 powi binade y)"
      by (rule rhe_mono)
    then show ?thesis
      by (simp add: fl64_pos_eq [OF assms(1)] fl64_pos_eq [OF y] True)
  next
    case False
    then have lt: "binade x < binade y" using le by simp
    then have sub: "- 1074 < binade y" using binade_ge [of x] by simp
    have "fl64 x \<le> 2 powi (binade x + 53)" using assms(1) by (rule fl64_upper)
    also have "\<dots> \<le> 2 powi (binade y + 52)"
      using lt by (intro power_int_increasing) simp_all
    also have "\<dots> \<le> fl64 y" using y sub by (rule fl64_lower)
    finally show ?thesis .
  qed
qed

lemma fl64_mono:
  assumes "x \<le> y"
  shows "fl64 x \<le> fl64 y"
proof -
  consider "0 < x" | "x \<le> 0" "0 \<le> y" | "y < 0" by linarith
  then show ?thesis
  proof cases
    case 1
    then show ?thesis using assms by (rule fl64_mono_pos)
  next
    case 2
    have "0 \<le> fl64 (- x)" using 2(1) by (intro fl64_nonneg) simp
    then have "fl64 x \<le> 0" by (simp add: fl64_minus)
    also have "0 \<le> fl64 y" using 2(2) by (rule fl64_nonneg)
    finally show ?thesis .
  next
    case 3
    have "fl64 (- y) \<le> fl64 (- x)" using 3 assms by (intro fl64_mono_pos) simp_all
    then show ?thesis by (simp add: fl64_minus)
  qed
qed


lemma binade_scaled:
  assumes "0 < m" "- 1074 \<le> e"
    and "of_int m < (2::rat) ^ 53"
    and "- 1074 < e \<longrightarrow> (2::rat) ^ 52 \<le> of_int m"
  shows "binade (of_int m * 2 powi e) = e"
proof -
  let ?r = "of_int m * (2::rat) powi e"
  have m: "(0::rat) < of_int m" using assms(1) by simp
  have r: "0 < ?r" using m by simp
  have up: "?r < 2 powi (e + 53)"
    using assms(3) by (simp add: power_int_add mult.commute)
  have "(2::rat) powi ilog2 ?r \<le> ?r" using r by (rule ilog2_bounds)
  also note up
  finally have "ilog2 ?r < e + 53" by (rule two_powi_less_D)
  then have le: "ilog2 ?r - 52 \<le> e" by simp
  show ?thesis
  proof (cases "- 1074 < e")
    case True
    then have "(2::rat) ^ 52 \<le> of_int m" using assms(4) by simp
    then have "(2::rat) powi (e + 52) \<le> ?r"
      by (simp add: power_int_add mult.commute)
    also have "?r < 2 powi (ilog2 ?r + 1)" using r by (rule ilog2_bounds)
    finally have "e + 52 < ilog2 ?r + 1" by (rule two_powi_less_D)
    then show ?thesis using le True by (simp add: binade_def)
  next
    case False
    then have "e = - 1074" using assms(2) by simp
    then show ?thesis using le by (simp add: binade_def)
  qed
qed

lemma fl64_scaled:
  assumes "0 < m" "- 1074 \<le> e"
    and "of_int m < (2::rat) ^ 53"
    and "- 1074 < e \<longrightarrow> (2::rat) ^ 52 \<le> of_int m"
  shows "fl64 (of_int m * 2 powi e) = of_int m * 2 powi e"
proof -
  have r: "(0::rat) < of_int m * 2 powi e" using assms(1) by simp
  have b: "binade (of_int m * 2 powi e) = e" using assms by (rule binade_scaled)
  show ?thesis by (simp add: fl64_pos_eq [OF r] b rhe_of_int)
qed

lemma fl64_idem_pos:
  assumes "0 < x"
  shows "fl64 (fl64 x) = fl64 x"
proof -
  define e where "e = binade x"
  define m where "m = round_half_even (x / 2 powi e)"
  have fx: "fl64 x = of_int m * 2 powi e"
    by (simp add: fl64_pos_eq [OF assms] e_def m_def)
  have e: "- 1074 \<le> e" by (simp add: e_def binade_ge)
  have "(of_int 0 :: rat) \<le> x / 2 powi e" using assms by simp
  then have m0: "0 \<le> m" unfolding m_def by (rule rhe_ge)
  have "x / 2 powi e \<le> of_int (2 ^ 53)" using scaled_less [OF assms] by (simp add: e_def)
  then have "m \<le> 2 ^ 53" unfolding m_def by (rule rhe_le)
  then have m53: "(of_int m :: rat) \<le> 2 ^ 53"
    by (metis of_int_le_iff of_int_numeral of_int_power)
  have m52: "(2::rat) ^ 52 \<le> of_int m" if "- 1074 < e"
  proof -
    have "of_int (2 ^ 52) \<le> x / 2 powi e" using scaled_ge [OF assms] that by (simp add: e_def)
    then have "2 ^ 52 \<le> m" unfolding m_def by (rule rhe_ge)
    then show ?thesis by (metis of_int_le_iff of_int_numeral of_int_power)
  qed
  consider "m = 0" | "0 < m" "(of_int m :: rat) < 2 ^ 53" | "(of_int m :: rat) = 2 ^ 53"
    using m0 m53 by fastforce
  then show ?thesis
  proof cases
    case 1
    then show ?thesis by (simp add: fx fl64_zero)
  next
    case 2
    have "fl64 (of_int m * 2 powi e) = of_int m * 2 powi e"
      using 2(1) e 2(2) m52 by (intro fl64_scaled) simp_all
    then show ?thesis by (simp add: fx)
  next
    case 3
    have eq: "of_int m * (2::rat) powi e = of_int (2 ^ 52) * 2 powi (e + 1)"
      by (simp add: 3 power_int_add)
    have "fl64 (of_int (2 ^ 52) * 2 powi (e + 1)) = of_int (2 ^ 52) * 2 powi (e + 1)"
      using e by (intro fl64_scaled) simp_all
    then show ?thesis by (simp only: fx eq)
  qed
qed

lemma fl64_idem: "fl64 (fl64 x) = fl64 x"
proof -
  consider "0 < x" | "x = 0" | "x < 0" by linarith
  then show ?thesis
  proof cases
    case 1
    then show ?thesis by (rule fl64_idem_pos)
  next
    case 2
    then show ?thesis by (simp add: fl64_zero)
  next
    case 3
    then have "fl64 (fl64 (- x)) = fl64 (- x)" by (intro fl64_idem_pos) simp
    then show ?thesis by (simp add: fl64_minus)
  qed
qed

lemma rounding_fl64: "rounding fl64"
  by (simp add: rounding_def fl64_mono fl64_idem fl64_zero)

lemma fl64_representable:
  assumes "0 < m" "of_int m < (2::rat) ^ 53" "- 1074 \<le> e"
  shows "fl64 (of_int m * 2 powi e) = of_int m * 2 powi e"
proof -
  let ?r = "of_int m * (2::rat) powi e"
  have r: "0 < ?r" using assms(1) by simp
  define b where "b = binade ?r"
  have "(2::rat) powi ilog2 ?r \<le> ?r" using r by (rule ilog2_bounds)
  also have "?r < 2 powi (e + 53)"
    using assms(2) by (simp add: power_int_add mult.commute)
  finally have "ilog2 ?r < e + 53" by (rule two_powi_less_D)
  then have be: "b \<le> e" using assms(3) by (simp add: b_def binade_def)
  have "?r / 2 powi b = of_int m * 2 powi (e - b)"
    by (simp add: power_int_diff)
  also have "\<dots> = of_int m * 2 ^ nat (e - b)"
    using be by (simp add: power_int_nonneg_exp)
  also have "\<dots> = of_int (m * 2 ^ nat (e - b))" by simp
  finally have sc: "?r / 2 powi b = of_int (m * 2 ^ nat (e - b))" .
  have "fl64 ?r = of_int (round_half_even (?r / 2 powi b)) * 2 powi b"
    using fl64_pos_eq [OF r] by (simp add: b_def)
  also have "\<dots> = of_int (m * 2 ^ nat (e - b)) * 2 powi b"
    by (simp only: sc rhe_of_int)
  also have "\<dots> = (?r / 2 powi b) * 2 powi b" by (simp only: sc)
  also have "\<dots> = ?r" by simp
  finally show ?thesis .
qed

lemma fl64_of_int:
  assumes "0 \<le> k" "k < 2 ^ 53"
  shows "fl64 (of_int k) = of_int k"
proof (cases "k = 0")
  case True
  then show ?thesis by (simp add: fl64_zero)
next
  case False
  then have "0 < k" using assms(1) by simp
  moreover have "(of_int k :: rat) < 2 ^ 53"
    using assms(2) by (metis of_int_less_iff of_int_numeral of_int_power)
  ultimately show ?thesis using fl64_representable [of k 0] by simp
qed


section \<open>The depth ladders: cumulative totals\<close>

lemma rounding_exact: "rounding exact"
  by (simp add: rounding_def exact_def)

lemma rounding_mono: "rounding rnd \<Longrightarrow> x \<le> y \<Longrightarrow> rnd x \<le> rnd y"
  by (simp add: rounding_def)

lemma rounding_idem: "rounding rnd \<Longrightarrow> rnd (rnd x) = rnd x"
  by (simp add: rounding_def)

lemma rounding_zero: "rounding rnd \<Longrightarrow> rnd 0 = 0"
  by (simp add: rounding_def)

lemma rounding_nonneg: "rounding rnd \<Longrightarrow> 0 \<le> x \<Longrightarrow> 0 \<le> rnd x"
  using rounding_mono [of rnd 0 x] by (simp add: rounding_zero)

lemma cumulate_price: "map price (cumulate rnd c xs) = map price xs"
  by (induction xs arbitrary: c) (simp_all add: Let_def)

lemma cumulate_volume: "map volume (cumulate rnd c xs) = map volume xs"
  by (induction xs arbitrary: c) (simp_all add: Let_def)

lemma cumulate_length: "length (cumulate rnd c xs) = length xs"
  by (induction xs arbitrary: c) (simp_all add: Let_def)

lemma cumulate_lower:
  assumes "rounding rnd" "rnd c = c" "\<forall>a \<in> set xs. 0 \<le> volume a"
  shows "\<forall>t \<in> set (map total (cumulate rnd c xs)). c \<le> t"
  using assms(2,3)
proof (induction xs arbitrary: c)
  case Nil
  show ?case by simp
next
  case (Cons b bs)
  let ?c' = "rnd (c + volume b)"
  have v: "0 \<le> volume b" using Cons.prems by simp
  have "rnd c \<le> ?c'" using assms(1) v by (simp add: rounding_def)
  then have le: "c \<le> ?c'" using Cons.prems(1) by simp
  have idem: "rnd ?c' = ?c'" using assms(1) by (simp add: rounding_def)
  have "\<forall>t \<in> set (map total (cumulate rnd ?c' bs)). ?c' \<le> t"
    using Cons.IH [OF idem] Cons.prems(2) by simp
  then show ?case using le by (auto simp: Let_def)
qed

lemma cumulate_sorted:
  assumes "rounding rnd" "rnd c = c" "\<forall>a \<in> set xs. 0 \<le> volume a"
  shows "sorted (map total (cumulate rnd c xs))"
  using assms(2,3)
proof (induction xs arbitrary: c)
  case Nil
  show ?case by simp
next
  case (Cons b bs)
  let ?c' = "rnd (c + volume b)"
  have idem: "rnd ?c' = ?c'" using assms(1) by (simp add: rounding_def)
  have bs: "\<forall>a \<in> set bs. 0 \<le> volume a" using Cons.prems(2) by simp
  have "sorted (map total (cumulate rnd ?c' bs))" using Cons.IH [OF idem bs] .
  moreover have "\<forall>t \<in> set (map total (cumulate rnd ?c' bs)). ?c' \<le> t"
    using cumulate_lower [OF assms(1) idem bs] .
  ultimately show ?case by (simp add: Let_def)
qed

lemma cumulate_hd:
  "xs \<noteq> [] \<Longrightarrow> total (hd (cumulate rnd c xs)) = rnd (c + volume (hd xs))"
  by (cases xs) (simp_all add: Let_def)

lemma cumulate_hd_volume:
  "xs \<noteq> [] \<Longrightarrow> volume (hd (cumulate rnd c xs)) = volume (hd xs)"
  by (cases xs) (simp_all add: Let_def)

lemma agg_step_keys:
  "distinct (map fst m) \<Longrightarrow> distinct (map fst (agg_step rnd t b m lv))"
  by (simp add: agg_step_def Let_def distinct_update split: option.split)

lemma set_update_subset: "set (AList.update k w m) \<subseteq> insert (k, w) (set m)"
  by (induction m) auto

lemma agg_step_good:
  assumes "rounding rnd" "\<forall>kv \<in> set m. good_volume rnd (snd kv)" "good_volume rnd (volume lv)"
  shows "\<forall>kv \<in> set (agg_step rnd t b m lv). good_volume rnd (snd kv)"
proof -
  let ?rp = "roundedPrice rnd b t (price lv)"
  have upd: "\<forall>kv \<in> set (AList.update ?rp w m). good_volume rnd (snd kv)"
    if "good_volume rnd w" for w
    using set_update_subset [of ?rp w m] that assms(2) by auto
  show ?thesis
  proof (cases "map_of m ?rp")
    case None
    then show ?thesis using upd [OF assms(3)] by (simp add: agg_step_def Let_def)
  next
    case (Some v)
    then have "(?rp, v) \<in> set m" by (rule map_of_SomeD)
    then have gv: "good_volume rnd v" using assms(2) by force
    have "0 \<le> v + volume lv" using gv assms(3) by (simp add: good_volume_def)
    then have "0 \<le> rnd (v + volume lv)" using assms(1) by (rule rounding_nonneg [rotated])
    then have "good_volume rnd (rnd (v + volume lv))"
      using assms(1) by (simp add: rounding_idem good_volume_def)
    then show ?thesis using Some upd by (simp add: agg_step_def Let_def)
  qed
qed

lemma agg_fold_inv:
  assumes "rounding rnd" "\<forall>l \<in> set orders. good_volume rnd (volume l)"
    "distinct (map fst m)" "\<forall>kv \<in> set m. good_volume rnd (snd kv)"
  shows "distinct (map fst (foldl (agg_step rnd t b) m orders)) \<and>
         (\<forall>kv \<in> set (foldl (agg_step rnd t b) m orders). good_volume rnd (snd kv))"
  using assms(2-)
proof (induction orders arbitrary: m)
  case Nil
  then show ?case by simp
next
  case (Cons lv ls)
  have g: "good_volume rnd (volume lv)" using Cons.prems(1) by simp
  have r: "\<forall>l \<in> set ls. good_volume rnd (volume l)" using Cons.prems(1) by simp
  have 1: "distinct (map fst (agg_step rnd t b m lv))" using Cons.prems(2) by (rule agg_step_keys)
  have 2: "\<forall>kv \<in> set (agg_step rnd t b m lv). good_volume rnd (snd kv)"
    using agg_step_good [OF assms(1) Cons.prems(3) g] .
  show ?case using Cons.IH [OF r 1 2] by simp
qed

lemma aggregate_props:
  assumes "rounding rnd" "\<forall>l \<in> set orders. good_volume rnd (volume l)"
  shows "distinct (map price (aggregateByTickSize rnd orders t b))"
    and "\<forall>a \<in> set (aggregateByTickSize rnd orders t b). good_volume rnd (volume a)"
    and "b \<Longrightarrow> sorted (map (\<lambda>a. - price a) (aggregateByTickSize rnd orders t b))"
    and "\<not> b \<Longrightarrow> sorted (map price (aggregateByTickSize rnd orders t b))"
proof -
  let ?m = "foldl (agg_step rnd t b) [] orders"
  have inv: "distinct (map fst ?m)" "\<forall>kv \<in> set ?m. good_volume rnd (snd kv)"
    using agg_fold_inv [OF assms, of "[]" t b] by simp_all
  have pe: "map price (map entry ?m) = map fst ?m" by (simp add: entry_def)
  have d: "distinct (map price (map entry ?m))" using inv(1) by (simp only: pe)
  have "distinct (map price (sort_key f (map entry ?m)))" for f :: "aggregated \<Rightarrow> rat"
    using d by (simp only: distinct_map distinct_sort set_sort)
  then show "distinct (map price (aggregateByTickSize rnd orders t b))"
    by (cases b) (simp_all add: aggregateByTickSize_def)
  show "\<forall>a \<in> set (aggregateByTickSize rnd orders t b). good_volume rnd (volume a)"
    using inv(2) by (cases b) (auto simp: aggregateByTickSize_def entry_def)
  show "b \<Longrightarrow> sorted (map (\<lambda>a. - price a) (aggregateByTickSize rnd orders t b))"
    by (simp add: aggregateByTickSize_def Let_def)
  show "\<not> b \<Longrightarrow> sorted (map price (aggregateByTickSize rnd orders t b))"
    by (simp add: aggregateByTickSize_def Let_def)
qed


lemma filterByRange_subset: "set (filterByRange rnd pct mid orders) \<subseteq> set orders"
  by (auto simp: filterByRange_def Let_def)

lemma sorted_neg_rev:
  fixes xs :: "aggregated list"
  shows "sorted (map (\<lambda>a. - price a) xs) \<Longrightarrow> sorted (map price (rev xs))"
proof -
  assume s: "sorted (map (\<lambda>a. - price a) xs)"
  have "sorted_wrt (\<lambda>a b. price b \<le> price a) xs"
    using s by (simp add: sorted_map sorted_wrt_iff_nth_less)
  then show ?thesis
    by (simp add: sorted_map sorted_wrt_rev)
qed

text \<open>
  What the two running sums do. For a snapshot whose volumes are non-negative numbers of
  the arithmetic, both ladders are in strictly ascending price order (the best ask is the
  first ask entry, the best bid is the last bid entry, because the bid ladder is reversed
  before the running sum is taken), the cumulative totals of both ladders are
  non-decreasing in array order, and the first entry of each ladder carries its own bucket
  volume. So the ask totals grow walking away from the best price, as the depth ladder
  asks, and the bid totals grow walking toward it.
\<close>

lemma ladder_cumulative_array_order:
  assumes "rounding rnd"
    and "\<forall>l \<in> set (bids ob) \<union> set (asks ob). 0 \<le> volume l \<and> rnd (volume l) = volume l"
  shows "let r = formatOrderbookData rnd (Some ob) depthRangePercent tickSize depth
         in sorted_wrt (<) (map price (ladder_asks r)) \<and>
            sorted_wrt (<) (map price (ladder_bids r)) \<and>
            sorted (map total (ladder_asks r)) \<and>
            sorted (map total (ladder_bids r)) \<and>
            (ladder_asks r \<noteq> [] \<longrightarrow> total (hd (ladder_asks r)) = volume (hd (ladder_asks r))) \<and>
            (ladder_bids r \<noteq> [] \<longrightarrow> total (hd (ladder_bids r)) = volume (hd (ladder_bids r)))"
proof -
  define mid where "mid = rnd (rnd ((if bids ob \<noteq> [] then price (hd (bids ob)) else 0) +
      (if asks ob \<noteq> [] then price (hd (asks ob)) else 0)) / 2)"
  define fb where "fb = filterByRange rnd depthRangePercent mid (bids ob)"
  define fa where "fa = filterByRange rnd depthRangePercent mid (asks ob)"
  define bs where "bs = rev (take depth (aggregateByTickSize rnd fb tickSize True))"
  define as where "as = take depth (aggregateByTickSize rnd fa tickSize False)"
  define r where "r = formatOrderbookData rnd (Some ob) depthRangePercent tickSize depth"
  have rb: "ladder_bids r = cumulate rnd 0 bs" and ra: "ladder_asks r = cumulate rnd 0 as"
    by (simp_all add: r_def formatOrderbookData_def Let_def bs_def as_def fb_def fa_def mid_def)
  have gb: "\<forall>l \<in> set fb. good_volume rnd (volume l)"
    using assms(2) filterByRange_subset [of rnd depthRangePercent mid "bids ob"]
    by (auto simp: fb_def good_volume_def)
  have ga: "\<forall>l \<in> set fa. good_volume rnd (volume l)"
    using assms(2) filterByRange_subset [of rnd depthRangePercent mid "asks ob"]
    by (auto simp: fa_def good_volume_def)
  note pb = aggregate_props [OF assms(1) gb, where t = tickSize and b = True]
  note pa = aggregate_props [OF assms(1) ga, where t = tickSize and b = False]
  have z: "rnd 0 = 0" using assms(1) by (rule rounding_zero)
  \<comment> \<open>asks\<close>
  have as_good: "\<forall>a \<in> set as. good_volume rnd (volume a)"
    using pa(2) by (auto simp: as_def dest: in_set_takeD)
  have as_sorted: "sorted (map price as)"
    using pa(4) by (simp add: as_def take_map [symmetric] sorted_wrt_take)
  have as_dist: "distinct (map price as)"
    using pa(1) by (simp add: as_def take_map [symmetric] distinct_take)
  have A1: "sorted_wrt (<) (map price (ladder_asks r))"
    using as_sorted as_dist by (simp add: ra cumulate_price strict_sorted_iff)
  have A2: "sorted (map total (ladder_asks r))"
    unfolding ra using assms(1) z
  proof (rule cumulate_sorted)
    show "\<forall>a \<in> set as. 0 \<le> volume a" using as_good by (simp add: good_volume_def)
  qed
  have A3: "total (hd (ladder_asks r)) = volume (hd (ladder_asks r))" if "ladder_asks r \<noteq> []"
  proof -
    have ne: "as \<noteq> []" using that ra by auto
    then have "hd as \<in> set as" by simp
    then have "rnd (volume (hd as)) = volume (hd as)" using as_good by (simp add: good_volume_def)
    then show ?thesis by (simp add: ra cumulate_hd [OF ne] cumulate_hd_volume [OF ne])
  qed
  \<comment> \<open>bids\<close>
  have bs_good: "\<forall>a \<in> set bs. good_volume rnd (volume a)"
    using pb(2) by (auto simp: bs_def dest: in_set_takeD)
  have "sorted (map (\<lambda>a. - price a) (take depth (aggregateByTickSize rnd fb tickSize True)))"
    using pb(3) by (simp add: take_map [symmetric] sorted_wrt_take)
  then have bs_sorted: "sorted (map price bs)"
    unfolding bs_def by (rule sorted_neg_rev)
  have bs_dist: "distinct (map price bs)"
    using pb(1) by (simp add: bs_def take_map [symmetric] distinct_take rev_map [symmetric])
  have B1: "sorted_wrt (<) (map price (ladder_bids r))"
    using bs_sorted bs_dist by (simp add: rb cumulate_price strict_sorted_iff)
  have B2: "sorted (map total (ladder_bids r))"
    unfolding rb using assms(1) z
  proof (rule cumulate_sorted)
    show "\<forall>a \<in> set bs. 0 \<le> volume a" using bs_good by (simp add: good_volume_def)
  qed
  have B3: "total (hd (ladder_bids r)) = volume (hd (ladder_bids r))" if "ladder_bids r \<noteq> []"
  proof -
    have ne: "bs \<noteq> []" using that rb by auto
    then have "hd bs \<in> set bs" by simp
    then have "rnd (volume (hd bs)) = volume (hd bs)" using bs_good by (simp add: good_volume_def)
    then show ?thesis by (simp add: rb cumulate_hd [OF ne] cumulate_hd_volume [OF ne])
  qed
  show ?thesis
    unfolding Let_def r_def [symmetric] using A1 A2 A3 B1 B2 B3 by blast
qed

lemma ladder_cumulative_array_order_example:
  "let r = formatOrderbookData fl64 (Some two_level_book) 20 1 20
   in rounding fl64 \<and>
      sorted (map total (ladder_bids r)) \<and> sorted (map total (ladder_asks r))"
proof -
  have f: "fl64 1 = 1" "fl64 2 = 2" by code_simp+
  have v: "\<forall>l \<in> set (bids two_level_book) \<union> set (asks two_level_book).
      0 \<le> volume l \<and> fl64 (volume l) = volume l"
    by (simp add: two_level_book_def f)
  show ?thesis
    using ladder_cumulative_array_order [OF rounding_fl64 v, of 20 1 20]
    by (simp add: Let_def rounding_fl64)
qed

text \<open>
  Claim C1 fails on the bid ladder. On a book with bids at 100 and 99 and asks at 101 and
  102, the ask ladder carries the cumulative 1 at the best ask and 3 at the ask farther
  out, as the claim says. On the bid ladder the best bid (price 100, volume 1) carries the
  cumulative 3, not its own volume, and the bid farther from the best price (price 99)
  carries the smaller cumulative 2: walking away from the best bid the cumulative
  decreases.
\<close>

theorem best_bid_carries_largest_cumulative:
  "let r = formatOrderbookData fl64 (Some two_level_book) 20 1 20;
       best = last (ladder_bids r); farther = hd (ladder_bids r)
   in map price (ladder_asks r) = [101, 102] \<and> map total (ladder_asks r) = [1, 3] \<and>
      map price (ladder_bids r) = [99, 100] \<and> map total (ladder_bids r) = [2, 3] \<and>
      price best = 100 \<and> price farther = 99 \<and> volume best = 1 \<and>
      total best = 3 \<and> total farther = 2 \<and> \<not> total best \<le> total farther"
  by code_simp


section \<open>Replay: downsampling\<close>

lemma stride_bounds:
  assumes "0 < n"
  shows "0 < stride n" and "n \<le> 300 * stride n"
proof -
  let ?q = "(of_nat n :: rat) / 300"
  have pos: "0 < ?q" using assms by simp
  then have c: "0 < \<lceil>?q\<rceil>" by (simp add: ceiling_less_iff)
  then show "0 < stride n" by (simp add: stride_def MAX_SNAPSHOTS_def)
  have "?q \<le> of_int \<lceil>?q\<rceil>" by (rule le_of_int_ceiling)
  also have "of_int \<lceil>?q\<rceil> = (of_nat (stride n) :: rat)"
    using c by (simp add: stride_def MAX_SNAPSHOTS_def)
  finally have "(of_nat n :: rat) \<le> 300 * of_nat (stride n)" by simp
  then have "(of_nat n :: rat) \<le> of_nat (300 * stride n)" by simp
  then show "n \<le> 300 * stride n" by (simp only: of_nat_le_iff)
qed

lemma downsample_nths:
  "MAX_SNAPSHOTS < length data \<Longrightarrow>
     downsample data = nths data {i. stride (length data) dvd i}"
  by (simp add: downsample_def nths_def Let_def case_prod_unfold mod_eq_0_iff_dvd)

lemma stride_count:
  fixes s n :: nat
  assumes "0 < s" "n \<le> 300 * s"
  shows "card {i. i < n \<and> s dvd i} \<le> 300"
proof -
  have "{i. i < n \<and> s dvd i} \<subseteq> (\<lambda>k. k * s) ` {0..<300}"
  proof
    fix i assume "i \<in> {i. i < n \<and> s dvd i}"
    then have i: "i < n" "s dvd i" by simp_all
    from i(2) obtain k where "i = s * k" by (rule dvdE)
    then have k: "i = k * s" by (simp add: mult.commute)
    have "k * s < 300 * s" using i(1) assms(2) k by linarith
    then have "k < 300" using assms(1) by simp
    then show "i \<in> (\<lambda>k. k * s) ` {0..<300}" using k by auto
  qed
  then have "card {i. i < n \<and> s dvd i} \<le> card ((\<lambda>k. k * s) ` {0..<300::nat})"
    by (intro card_mono) auto
  also have "\<dots> \<le> card {0..<300::nat}" by (rule card_image_le) simp
  finally show ?thesis by simp
qed

text \<open>
  The stride of the history fetch in binary64: for an array length, the ceiling of the
  rounded quotient is the ceiling of the exact quotient.
\<close>

lemma stride_binary64:
  assumes "n < 2 ^ 32"
  shows "nat \<lceil>fl64 (of_nat n / of_nat MAX_SNAPSHOTS)\<rceil> = stride n"
proof -
  define q :: rat where "q = of_nat n / 300"
  define k where "k = \<lceil>q\<rceil>"
  have q0: "0 \<le> q" by (simp add: q_def)
  have k0: "0 \<le> k" using q0 by (simp add: k_def)
  have qk: "q \<le> of_int k" by (simp add: k_def)
  have "q < 2 ^ 32" using assms by (simp add: q_def)
  then have "q \<le> of_int (2 ^ 32)" by simp
  then have "k \<le> 2 ^ 32" unfolding k_def by (simp only: ceiling_le_iff)
  then have k53: "k < 2 ^ 53" by simp
  have up: "fl64 q \<le> of_int k"
    using fl64_mono [OF qk] fl64_of_int [OF k0 k53] by simp
  have lo: "of_int k - 1 < fl64 q"
  proof (cases "k = 0")
    case True
    have "0 \<le> fl64 q" using q0 by (rule fl64_nonneg)
    then show ?thesis using True by simp
  next
    case False
    then have k1: "1 \<le> k" using k0 by simp
    define d :: rat where "d = of_int (512 * (k - 1) + 1) * 2 powi (- 9)"
    have d_eq: "d = of_int (k - 1) + 1 / 512" by (simp add: d_def field_simps)
    have "of_int k - 1 < q" unfolding k_def by linarith
    then have "of_int (k - 1) * 300 < (of_nat n :: rat)" by (simp add: q_def field_simps)
    then have "(of_int ((k - 1) * 300) :: rat) < of_int (int n)" by simp
    then have "(k - 1) * 300 < int n" by (simp only: of_int_less_iff)
    then have "(k - 1) * 300 + 1 \<le> int n" by simp
    then have "(of_int ((k - 1) * 300 + 1) :: rat) \<le> of_int (int n)" by (simp only: of_int_le_iff)
    then have "of_int (k - 1) + 1 / 300 \<le> q" by (simp add: q_def field_simps)
    then have dq: "d \<le> q" by (simp add: d_eq)
    have "(of_int (512 * (k - 1) + 1) :: rat) < 2 ^ 53"
    proof -
      have "512 * (k - 1) + 1 < 2 ^ 53" using \<open>k \<le> 2 ^ 32\<close> by simp
      then show ?thesis by (metis of_int_less_iff of_int_numeral of_int_power)
    qed
    then have "fl64 d = d"
      unfolding d_def using k1 by (intro fl64_representable) simp_all
    then have "d \<le> fl64 q" using fl64_mono [OF dq] by simp
    then show ?thesis by (simp add: d_eq)
  qed
  have "\<lceil>fl64 q\<rceil> = k" using lo up by (intro ceiling_unique) simp_all
  then show ?thesis by (simp add: stride_def MAX_SNAPSHOTS_def q_def k_def)
qed

text \<open>
  Claim C5. A fetched sequence of at most 300 entries is kept unchanged. A longer one is
  reduced to the elements at the indices divisible by \<open>ceil(n / 300)\<close>; the result has
  at most 300 entries, is not empty and starts with the first fetched snapshot, and is a
  subsequence of the input, so the chronological order is preserved.
\<close>

theorem downsample_stride:
  "(length data \<le> 300 \<longrightarrow> downsample data = data) \<and>
   (300 < length data \<longrightarrow>
      downsample data = nths data {i. nat \<lceil>(of_nat (length data) :: rat) / 300\<rceil> dvd i} \<and>
      length (downsample data) \<le> 300 \<and>
      downsample data \<noteq> [] \<and> hd (downsample data) = hd data \<and>
      subseq (downsample data) data)"
proof (intro conjI impI)
  assume "length data \<le> 300"
  then show "downsample data = data" by (simp add: downsample_def MAX_SNAPSHOTS_def)
next
  assume big: "300 < length data"
  then have gt: "MAX_SNAPSHOTS < length data" by (simp add: MAX_SNAPSHOTS_def)
  let ?s = "stride (length data)"
  have "0 < length data" using big by linarith
  note s = stride_bounds [OF this]
  have eq: "downsample data = nths data {i. ?s dvd i}" using gt by (rule downsample_nths)
  then show "downsample data = nths data {i. nat \<lceil>(of_nat (length data) :: rat) / 300\<rceil> dvd i}"
    by (simp add: stride_def MAX_SNAPSHOTS_def)
  show "length (downsample data) \<le> 300"
    using stride_count [OF s] by (simp add: eq length_nths)
  obtain x xs where d: "data = x # xs" using big by (cases data) auto
  have "nths (x # xs) {i. ?s dvd i} = x # nths xs {j. ?s dvd Suc j}"
    by (simp add: nths_Cons)
  then have "nths data {i. stride (length data) dvd i} = x # nths xs {j. stride (length data) dvd Suc j}"
    using d by simp
  then show "downsample data \<noteq> []" "hd (downsample data) = hd data"
    using eq d by simp_all
  show "subseq (downsample data) data"
    using eq subseq_conv_nths by metis
qed

theorem downsample_stride_witness:
  "300 < length [0..<900::nat] \<and> length (downsample [0..<900::nat]) \<le> 300 \<and>
   hd (downsample [0..<900::nat]) = 0 \<and> subseq (downsample [0..<900::nat]) [0..<900] \<and>
   length [0..<5::nat] \<le> 300 \<and> downsample [0..<5::nat] = [0..<5]"
proof -
  have big: "300 < length [0..<900::nat]" and small: "length [0..<5::nat] \<le> 300"
    by simp_all
  from big downsample_stride [of "[0..<900::nat]"]
  have "length (downsample [0..<900::nat]) \<le> 300 \<and>
      hd (downsample [0..<900::nat]) = hd [0..<900] \<and> subseq (downsample [0..<900::nat]) [0..<900]"
    by blast
  moreover from small downsample_stride [of "[0..<5::nat]"]
  have "downsample [0..<5::nat] = [0..<5]" by blast
  moreover have "hd [0..<900::nat] = 0" by (simp add: hd_upt)
  ultimately show ?thesis using big small by simp
qed

text \<open>
  Claim C9. When the fetched sequence has more than 300 entries, all different, and its
  last index \<open>n - 1\<close> is not divisible by the stride, the last fetched snapshot is not in
  the replay history. 302 entries are such a sequence: the stride is 2 and the last index
  is 301.
\<close>

theorem downsample_drops_last:
  assumes "300 < length data"
    and "\<not> nat \<lceil>(of_nat (length data) :: rat) / 300\<rceil> dvd (length data - 1)"
    and "distinct data"
  shows "last data \<notin> set (downsample data)"
proof
  assume mem: "last data \<in> set (downsample data)"
  have gt: "MAX_SNAPSHOTS < length data" using assms(1) by (simp add: MAX_SNAPSHOTS_def)
  have ne: "data \<noteq> []" using assms(1) by auto
  from mem obtain i where i: "i < length data" "stride (length data) dvd i" "last data = data ! i"
    by (auto simp: downsample_nths [OF gt] set_nths)
  have "data ! (length data - 1) = data ! i" using i(3) ne by (simp add: last_conv_nth)
  then have "i = length data - 1"
    using assms(3) i(1) ne by (simp add: nth_eq_iff_index_eq)
  then show False using i(2) assms(2) by (simp add: stride_def MAX_SNAPSHOTS_def)
qed

theorem downsample_drops_last_witness:
  "length [0..<302::nat] = 302 \<and> nat \<lceil>(302 :: rat) / 300\<rceil> = 2 \<and>
   last [0..<302::nat] = 301 \<and> 301 \<notin> set (downsample [0..<302::nat])"
proof -
  have "\<lceil>(302 :: rat) / 300\<rceil> = 2" by (rule ceiling_unique) simp_all
  then have c: "nat \<lceil>(302 :: rat) / 300\<rceil> = 2" by (simp only: nat_numeral)
  have l: "last [0..<302::nat] = 301" by (simp add: last_upt)
  have d: "\<not> nat \<lceil>(of_nat (length [0..<302::nat]) :: rat) / 300\<rceil> dvd (length [0..<302::nat] - 1)"
  proof -
    have "length [0..<302::nat] = 302" by simp
    then show ?thesis by (simp only: c of_nat_numeral) simp
  qed
  have "last [0..<302::nat] \<notin> set (downsample [0..<302::nat])"
    by (rule downsample_drops_last [OF _ d]) simp_all
  then show ?thesis using c l by simp
qed


section \<open>Replay: seek and jump handlers\<close>

lemma back_scan_spec:
  assumes "i < int (length h)" "- 1 \<le> i"
  shows "\<exists>j. back_scan h target n i = Inr j \<and>
     (\<forall>k. 0 \<le> k \<and> j < k \<and> k \<le> i \<longrightarrow> target < timestamp (h ! nat k)) \<and>
     (if \<exists>k. 0 \<le> k \<and> k \<le> i \<and> timestamp (h ! nat k) \<le> target
      then 0 \<le> j \<and> j \<le> i \<and> timestamp (h ! nat j) \<le> target
      else j = (if 0 \<le> i then 0 else n))"
  using assms
proof (induction h target n i rule: back_scan.induct)
  case (1 hist targetTime newIndex i)
  show ?case
  proof (cases "0 \<le> i")
    case False
    then show ?thesis by (subst back_scan.simps) auto
  next
    case nonneg: True
    show ?thesis
    proof (cases "timestamp (hist ! nat i) \<le> targetTime")
      case True
      then show ?thesis using nonneg "1.prems" by (subst back_scan.simps) auto
    next
      case False
      have "\<exists>j. back_scan hist targetTime i (i - 1) = Inr j \<and>
         (\<forall>k. 0 \<le> k \<and> j < k \<and> k \<le> i - 1 \<longrightarrow> targetTime < timestamp (hist ! nat k)) \<and>
         (if \<exists>k. 0 \<le> k \<and> k \<le> i - 1 \<and> timestamp (hist ! nat k) \<le> targetTime
          then 0 \<le> j \<and> j \<le> i - 1 \<and> timestamp (hist ! nat j) \<le> targetTime
          else j = (if 0 \<le> i - 1 then 0 else i))"
        using "1.IH" [OF nonneg _ False] "1.prems" nonneg by simp
      then obtain j where j: "back_scan hist targetTime i (i - 1) = Inr j"
        "\<forall>k. 0 \<le> k \<and> j < k \<and> k \<le> i - 1 \<longrightarrow> targetTime < timestamp (hist ! nat k)"
        "if \<exists>k. 0 \<le> k \<and> k \<le> i - 1 \<and> timestamp (hist ! nat k) \<le> targetTime
          then 0 \<le> j \<and> j \<le> i - 1 \<and> timestamp (hist ! nat j) \<le> targetTime
          else j = (if 0 \<le> i - 1 then 0 else i)"
        by blast
      have eq: "back_scan hist targetTime newIndex i = Inr j"
        using nonneg "1.prems" False j(1) by (subst back_scan.simps) simp
      have skipped: "\<forall>k. 0 \<le> k \<and> j < k \<and> k \<le> i \<longrightarrow> targetTime < timestamp (hist ! nat k)"
      proof (intro allI impI)
        fix k assume "0 \<le> k \<and> j < k \<and> k \<le> i"
        then consider "k = i" | "0 \<le> k \<and> j < k \<and> k \<le> i - 1" by linarith
        then show "targetTime < timestamp (hist ! nat k)"
          using False j(2) by cases auto
      qed
      have ex_iff: "(\<exists>k. 0 \<le> k \<and> k \<le> i \<and> timestamp (hist ! nat k) \<le> targetTime) \<longleftrightarrow>
          (\<exists>k. 0 \<le> k \<and> k \<le> i - 1 \<and> timestamp (hist ! nat k) \<le> targetTime)"
      proof
        assume "\<exists>k. 0 \<le> k \<and> k \<le> i \<and> timestamp (hist ! nat k) \<le> targetTime"
        then obtain k where k: "0 \<le> k" "k \<le> i" "timestamp (hist ! nat k) \<le> targetTime" by blast
        then have "k \<noteq> i" using False by auto
        then show "\<exists>k. 0 \<le> k \<and> k \<le> i - 1 \<and> timestamp (hist ! nat k) \<le> targetTime"
          using k by (intro exI [of _ k]) simp
      next
        assume "\<exists>k. 0 \<le> k \<and> k \<le> i - 1 \<and> timestamp (hist ! nat k) \<le> targetTime"
        then obtain k where "0 \<le> k" "k \<le> i - 1" "timestamp (hist ! nat k) \<le> targetTime" by blast
        then show "\<exists>k. 0 \<le> k \<and> k \<le> i \<and> timestamp (hist ! nat k) \<le> targetTime"
          by (intro exI [of _ k]) simp
      qed
      show ?thesis
      proof (cases "\<exists>k. 0 \<le> k \<and> k \<le> i - 1 \<and> timestamp (hist ! nat k) \<le> targetTime")
        case True
        then have "0 \<le> j \<and> j \<le> i - 1 \<and> timestamp (hist ! nat j) \<le> targetTime"
          using j(3) by simp
        then show ?thesis using eq skipped ex_iff True by auto
      next
        case none: False
        then have "j = (if 0 \<le> i - 1 then 0 else i)" using j(3) by simp
        then have "j = 0" using nonneg by (auto split: if_splits)
        then show ?thesis using eq skipped ex_iff none nonneg by auto
      qed
    qed
  qed
qed


lemma forward_scan_spec:
  assumes "0 \<le> i" "i \<le> int (length h)"
  shows "\<exists>j. forward_scan h target n i = Inr j \<and>
     (\<forall>k. i \<le> k \<and> k < j \<and> k < int (length h) \<longrightarrow> timestamp (h ! nat k) < target) \<and>
     (if \<exists>k. i \<le> k \<and> k < int (length h) \<and> target \<le> timestamp (h ! nat k)
      then i \<le> j \<and> j < int (length h) \<and> target \<le> timestamp (h ! nat j)
      else j = (if i < int (length h) then int (length h) - 1 else n))"
  using assms
proof (induction h target n i rule: forward_scan.induct)
  case (1 hist targetTime newIndex i)
  let ?len = "int (length hist)"
  show ?case
  proof (cases "i < ?len")
    case False
    then have "i = ?len" using "1.prems" by simp
    then show ?thesis by (subst forward_scan.simps) auto
  next
    case inside: True
    show ?thesis
    proof (cases "targetTime \<le> timestamp (hist ! nat i)")
      case True
      then show ?thesis using inside "1.prems" by (subst forward_scan.simps) auto
    next
      case False
      have "\<exists>j. forward_scan hist targetTime i (i + 1) = Inr j \<and>
         (\<forall>k. i + 1 \<le> k \<and> k < j \<and> k < ?len \<longrightarrow> timestamp (hist ! nat k) < targetTime) \<and>
         (if \<exists>k. i + 1 \<le> k \<and> k < ?len \<and> targetTime \<le> timestamp (hist ! nat k)
          then i + 1 \<le> j \<and> j < ?len \<and> targetTime \<le> timestamp (hist ! nat j)
          else j = (if i + 1 < ?len then ?len - 1 else i))"
        using "1.IH" [OF inside _ False] "1.prems" inside by simp
      then obtain j where j: "forward_scan hist targetTime i (i + 1) = Inr j"
        "\<forall>k. i + 1 \<le> k \<and> k < j \<and> k < ?len \<longrightarrow> timestamp (hist ! nat k) < targetTime"
        "if \<exists>k. i + 1 \<le> k \<and> k < ?len \<and> targetTime \<le> timestamp (hist ! nat k)
          then i + 1 \<le> j \<and> j < ?len \<and> targetTime \<le> timestamp (hist ! nat j)
          else j = (if i + 1 < ?len then ?len - 1 else i)"
        by blast
      have eq: "forward_scan hist targetTime newIndex i = Inr j"
        using inside "1.prems" False j(1) by (subst forward_scan.simps) simp
      have skipped: "\<forall>k. i \<le> k \<and> k < j \<and> k < ?len \<longrightarrow> timestamp (hist ! nat k) < targetTime"
      proof (intro allI impI)
        fix k assume "i \<le> k \<and> k < j \<and> k < ?len"
        then consider "k = i" | "i + 1 \<le> k \<and> k < j \<and> k < ?len" by linarith
        then show "timestamp (hist ! nat k) < targetTime"
          using False j(2) by cases auto
      qed
      have ex_iff: "(\<exists>k. i \<le> k \<and> k < ?len \<and> targetTime \<le> timestamp (hist ! nat k)) \<longleftrightarrow>
          (\<exists>k. i + 1 \<le> k \<and> k < ?len \<and> targetTime \<le> timestamp (hist ! nat k))"
      proof
        assume "\<exists>k. i \<le> k \<and> k < ?len \<and> targetTime \<le> timestamp (hist ! nat k)"
        then obtain k where k: "i \<le> k" "k < ?len" "targetTime \<le> timestamp (hist ! nat k)" by blast
        then have "k \<noteq> i" using False by auto
        then show "\<exists>k. i + 1 \<le> k \<and> k < ?len \<and> targetTime \<le> timestamp (hist ! nat k)"
          using k by (intro exI [of _ k]) simp
      next
        assume "\<exists>k. i + 1 \<le> k \<and> k < ?len \<and> targetTime \<le> timestamp (hist ! nat k)"
        then obtain k where "i + 1 \<le> k" "k < ?len" "targetTime \<le> timestamp (hist ! nat k)" by blast
        then show "\<exists>k. i \<le> k \<and> k < ?len \<and> targetTime \<le> timestamp (hist ! nat k)"
          by (intro exI [of _ k]) simp
      qed
      show ?thesis
      proof (cases "\<exists>k. i + 1 \<le> k \<and> k < ?len \<and> targetTime \<le> timestamp (hist ! nat k)")
        case True
        then have "i + 1 \<le> j \<and> j < ?len \<and> targetTime \<le> timestamp (hist ! nat j)"
          using j(3) by simp
        then show ?thesis using eq skipped ex_iff True by auto
      next
        case none: False
        then have "j = (if i + 1 < ?len then ?len - 1 else i)" using j(3) by simp
        then have "j = ?len - 1" using inside by (auto split: if_splits)
        then show ?thesis using eq skipped ex_iff none inside by auto
      qed
    qed
  qed
qed





lemma jump_back_spec:
  assumes "history st \<noteq> []" "currentTime st = Some t"
    "0 \<le> historyIndex st" "historyIndex st < int (length (history st))"
  shows "\<exists>b. handleJumpBack st = Inr (if b = historyIndex st then st else show_index st b) \<and>
     0 \<le> b \<and> b \<le> historyIndex st \<and>
     (\<forall>k. b < k \<and> k < historyIndex st \<longrightarrow> t - 10000 < timestamp (history st ! nat k)) \<and>
     (if \<exists>k. 0 \<le> k \<and> k < historyIndex st \<and> timestamp (history st ! nat k) \<le> t - 10000
      then b < historyIndex st \<and> timestamp (history st ! nat b) \<le> t - 10000
      else b = 0)"
proof -
  let ?i = "historyIndex st" and ?h = "history st"
  have ex_iff: "(\<exists>k. 0 \<le> k \<and> k \<le> ?i - 1 \<and> timestamp (?h ! nat k) \<le> t - 10000) \<longleftrightarrow>
      (\<exists>k. 0 \<le> k \<and> k < ?i \<and> timestamp (?h ! nat k) \<le> t - 10000)"
    by (simp only: zle_diff1_eq)
  obtain j where j: "back_scan ?h (t - 10000) ?i (?i - 1) = Inr j"
    "\<forall>k. 0 \<le> k \<and> j < k \<and> k \<le> ?i - 1 \<longrightarrow> t - 10000 < timestamp (?h ! nat k)"
    "if \<exists>k. 0 \<le> k \<and> k \<le> ?i - 1 \<and> timestamp (?h ! nat k) \<le> t - 10000
     then 0 \<le> j \<and> j \<le> ?i - 1 \<and> timestamp (?h ! nat j) \<le> t - 10000
     else j = (if 0 \<le> ?i - 1 then 0 else ?i)"
  proof -
    have "?i - 1 < int (length ?h)" "- 1 \<le> ?i - 1" using assms(3,4) by simp_all
    from back_scan_spec [OF this, of "t - 10000" ?i] show ?thesis using that by blast
  qed
  have range: "0 \<le> j \<and> j \<le> ?i" using j(3) assms(3) by (auto split: if_splits)
  have run: "handleJumpBack st = Inr (if j = ?i then st else show_index st j)"
    using assms j(1) range by (simp add: handleJumpBack_def jump_to_def)
  have skipped: "\<forall>k. j < k \<and> k < ?i \<longrightarrow> t - 10000 < timestamp (?h ! nat k)"
    using j(2) range by auto
  have last: "if \<exists>k. 0 \<le> k \<and> k < ?i \<and> timestamp (?h ! nat k) \<le> t - 10000
      then j < ?i \<and> timestamp (?h ! nat j) \<le> t - 10000 else j = 0"
  proof (cases "\<exists>k. 0 \<le> k \<and> k < ?i \<and> timestamp (?h ! nat k) \<le> t - 10000")
    case True
    then show ?thesis using j(3) ex_iff by auto
  next
    case False
    then have "j = (if 0 \<le> ?i - 1 then 0 else ?i)" using j(3) ex_iff by auto
    then have "j = 0" using assms(3) by (auto split: if_splits)
    then show ?thesis by (simp only: False if_False)
  qed
  show ?thesis using run range skipped last by blast
qed

lemma jump_forward_spec:
  assumes "history st \<noteq> []" "currentTime st = Some t"
    "0 \<le> historyIndex st" "historyIndex st < int (length (history st))"
  shows "\<exists>f. handleJumpForward st = Inr (if f = historyIndex st then st else show_index st f) \<and>
     historyIndex st \<le> f \<and> f < int (length (history st)) \<and>
     (\<forall>k. historyIndex st < k \<and> k < f \<longrightarrow> timestamp (history st ! nat k) < t + 10000) \<and>
     (if \<exists>k. historyIndex st < k \<and> k < int (length (history st)) \<and>
            t + 10000 \<le> timestamp (history st ! nat k)
      then historyIndex st < f \<and> t + 10000 \<le> timestamp (history st ! nat f)
      else f = int (length (history st)) - 1)"
proof -
  let ?i = "historyIndex st" and ?h = "history st"
  let ?len = "int (length ?h)"
  have ex_iff: "(\<exists>k. ?i + 1 \<le> k \<and> k < ?len \<and> t + 10000 \<le> timestamp (?h ! nat k)) \<longleftrightarrow>
      (\<exists>k. ?i < k \<and> k < ?len \<and> t + 10000 \<le> timestamp (?h ! nat k))"
    by (simp only: add1_zle_eq)
  obtain j where j: "forward_scan ?h (t + 10000) ?i (?i + 1) = Inr j"
    "\<forall>k. ?i + 1 \<le> k \<and> k < j \<and> k < ?len \<longrightarrow> timestamp (?h ! nat k) < t + 10000"
    "if \<exists>k. ?i + 1 \<le> k \<and> k < ?len \<and> t + 10000 \<le> timestamp (?h ! nat k)
     then ?i + 1 \<le> j \<and> j < ?len \<and> t + 10000 \<le> timestamp (?h ! nat j)
     else j = (if ?i + 1 < ?len then ?len - 1 else ?i)"
  proof -
    have "0 \<le> ?i + 1" "?i + 1 \<le> int (length ?h)" using assms(3,4) by simp_all
    from forward_scan_spec [OF this, of "t + 10000" ?i] show ?thesis using that by blast
  qed
  have range: "?i \<le> j \<and> j < ?len" using j(3) assms(3,4) by (auto split: if_splits)
  have run: "handleJumpForward st = Inr (if j = ?i then st else show_index st j)"
    using assms j(1) range by (simp add: handleJumpForward_def jump_to_def)
  have skipped: "\<forall>k. ?i < k \<and> k < j \<longrightarrow> timestamp (?h ! nat k) < t + 10000"
    using j(2) range by auto
  have last: "if \<exists>k. ?i < k \<and> k < ?len \<and> t + 10000 \<le> timestamp (?h ! nat k)
      then ?i < j \<and> t + 10000 \<le> timestamp (?h ! nat j) else j = ?len - 1"
  proof (cases "\<exists>k. ?i < k \<and> k < ?len \<and> t + 10000 \<le> timestamp (?h ! nat k)")
    case True
    then show ?thesis using j(3) ex_iff by auto
  next
    case False
    then have "j = (if ?i + 1 < ?len then ?len - 1 else ?i)" using j(3) ex_iff by auto
    then have "j = ?len - 1" using assms(4) by (auto split: if_splits)
    then show ?thesis by (simp only: False if_False)
  qed
  show ?thesis using run range skipped last by blast
qed


text \<open>
  Claim C2, as the code has it. With an empty history or no current time both jumps
  leave the state as it is. Otherwise, from an index inside the history, jump-back stops
  at the first snapshot below the current index (scanning downward) whose timestamp is at
  most the current time minus 10 s, and jump-forward at the first snapshot above it whose
  timestamp is at least the current time plus 10 s; every snapshot passed on the way
  fails the test. When no snapshot in the scan direction qualifies, the index moves to
  the end of the history in that direction (index 0, respectively the last index), so the
  jump leaves the index unchanged only when it already is at that end. The view follows
  the index.
\<close>

theorem jump_stops_or_clamps:
  "(history st = [] \<or> currentTime st = None \<longrightarrow>
      handleJumpBack st = Inr st \<and> handleJumpForward st = Inr st) \<and>
   (history st \<noteq> [] \<and> currentTime st = Some t \<and>
    0 \<le> historyIndex st \<and> historyIndex st < int (length (history st)) \<longrightarrow>
      (\<exists>b. handleJumpBack st = Inr (if b = historyIndex st then st else show_index st b) \<and>
         0 \<le> b \<and> b \<le> historyIndex st \<and>
         (\<forall>k. b < k \<and> k < historyIndex st \<longrightarrow> t - 10000 < timestamp (history st ! nat k)) \<and>
         (if \<exists>k. 0 \<le> k \<and> k < historyIndex st \<and> timestamp (history st ! nat k) \<le> t - 10000
          then b < historyIndex st \<and> timestamp (history st ! nat b) \<le> t - 10000
          else b = 0)) \<and>
      (\<exists>f. handleJumpForward st = Inr (if f = historyIndex st then st else show_index st f) \<and>
         historyIndex st \<le> f \<and> f < int (length (history st)) \<and>
         (\<forall>k. historyIndex st < k \<and> k < f \<longrightarrow> timestamp (history st ! nat k) < t + 10000) \<and>
         (if \<exists>k. historyIndex st < k \<and> k < int (length (history st)) \<and>
                t + 10000 \<le> timestamp (history st ! nat k)
          then historyIndex st < f \<and> t + 10000 \<le> timestamp (history st ! nat f)
          else f = int (length (history st)) - 1)))"
proof (intro conjI impI)
  assume "history st = [] \<or> currentTime st = None"
  then show "handleJumpBack st = Inr st" "handleJumpForward st = Inr st"
    by (auto simp: handleJumpBack_def handleJumpForward_def)
next
  assume a: "history st \<noteq> [] \<and> currentTime st = Some t \<and>
    0 \<le> historyIndex st \<and> historyIndex st < int (length (history st))"
  then show "\<exists>b. handleJumpBack st = Inr (if b = historyIndex st then st else show_index st b) \<and>
         0 \<le> b \<and> b \<le> historyIndex st \<and>
         (\<forall>k. b < k \<and> k < historyIndex st \<longrightarrow> t - 10000 < timestamp (history st ! nat k)) \<and>
         (if \<exists>k. 0 \<le> k \<and> k < historyIndex st \<and> timestamp (history st ! nat k) \<le> t - 10000
          then b < historyIndex st \<and> timestamp (history st ! nat b) \<le> t - 10000
          else b = 0)"
    by (intro jump_back_spec) simp_all
  from a show "\<exists>f. handleJumpForward st = Inr (if f = historyIndex st then st else show_index st f) \<and>
         historyIndex st \<le> f \<and> f < int (length (history st)) \<and>
         (\<forall>k. historyIndex st < k \<and> k < f \<longrightarrow> timestamp (history st ! nat k) < t + 10000) \<and>
         (if \<exists>k. historyIndex st < k \<and> k < int (length (history st)) \<and>
                t + 10000 \<le> timestamp (history st ! nat k)
          then historyIndex st < f \<and> t + 10000 \<le> timestamp (history st ! nat f)
          else f = int (length (history st)) - 1)"
    by (intro jump_forward_spec) simp_all
qed

text \<open>
  In a history with snapshots at 0 s, 1 s and 2 s no snapshot is 10 s before the last one
  or 10 s after the first one, and the jumps are not no-ops: jump-back from index 2 goes
  to index 0, jump-forward from index 0 goes to index 2.
\<close>

theorem jump_no_op_counterexample:
  "filter (\<lambda>s. timestamp s \<le> 2000 - 10000) (history (three_seconds 2)) = [] \<and>
   filter (\<lambda>s. 0 + 10000 \<le> timestamp s) (history (three_seconds 0)) = [] \<and>
   handleJumpBack (three_seconds 2) = Inr (three_seconds 0) \<and>
   handleJumpForward (three_seconds 0) = Inr (three_seconds 2) \<and>
   historyIndex (three_seconds 0) \<noteq> historyIndex (three_seconds 2)"
  by (simp add: three_seconds_def snap_def handleJumpBack_def handleJumpForward_def
      jump_to_def show_index_def)

theorem jump_stops_or_clamps_witness:
  "history (ten_seconds 3) \<noteq> [] \<and> currentTime (ten_seconds 3) = Some 15000 \<and>
   handleJumpBack (ten_seconds 3) = Inr (ten_seconds 1) \<and>
   handleJumpForward (ten_seconds 0) = Inr (ten_seconds 2) \<and>
   (\<exists>b. handleJumpBack (ten_seconds 3) =
           Inr (if b = historyIndex (ten_seconds 3) then ten_seconds 3
                else show_index (ten_seconds 3) b) \<and>
        timestamp (history (ten_seconds 3) ! nat b) \<le> 15000 - 10000)"
proof -
  have h: "history (ten_seconds 3) \<noteq> [] \<and> currentTime (ten_seconds 3) = Some 15000 \<and>
      0 \<le> historyIndex (ten_seconds 3) \<and>
      historyIndex (ten_seconds 3) < int (length (history (ten_seconds 3)))"
    by (simp add: ten_seconds_def)
  have q: "\<exists>k. 0 \<le> k \<and> k < historyIndex (ten_seconds 3) \<and>
      timestamp (history (ten_seconds 3) ! nat k) \<le> 15000 - 10000"
    by (rule exI [of _ 0]) (simp add: ten_seconds_def snap_def)
  from jump_stops_or_clamps [of "ten_seconds 3" 15000] h
  obtain b where b: "handleJumpBack (ten_seconds 3) =
        Inr (if b = historyIndex (ten_seconds 3) then ten_seconds 3
             else show_index (ten_seconds 3) b)"
      "if \<exists>k. 0 \<le> k \<and> k < historyIndex (ten_seconds 3) \<and>
            timestamp (history (ten_seconds 3) ! nat k) \<le> 15000 - 10000
       then b < historyIndex (ten_seconds 3) \<and>
            timestamp (history (ten_seconds 3) ! nat b) \<le> 15000 - 10000
       else b = 0"
    by blast
  from b(2) q have "timestamp (history (ten_seconds 3) ! nat b) \<le> 15000 - 10000"
    by (simp only: if_True)
  moreover have "handleJumpBack (ten_seconds 3) = Inr (ten_seconds 1)"
    "handleJumpForward (ten_seconds 0) = Inr (ten_seconds 2)"
    by (simp_all add: ten_seconds_def snap_def handleJumpBack_def handleJumpForward_def
        jump_to_def show_index_def)
  ultimately show ?thesis using h b(1) by blast
qed

text \<open>
  What \<open>handleSeek\<close> does with any integer: it stores the index, never touches the play
  state or the history, and sets the view to \<open>history[index]\<close> when the index is inside
  the history.
\<close>

lemma seek_stores_index:
  "historyIndex (handleSeek i st) = i \<and>
   history (handleSeek i st) = history st \<and>
   isPlaying (handleSeek i st) = isPlaying st \<and>
   (0 \<le> i \<and> i < int (length (history st)) \<longrightarrow>
      orderbook (handleSeek i st) = Some (history st ! nat i) \<and>
      currentTime (handleSeek i st) = Some (timestamp (history st ! nat i))) \<and>
   (\<not> (0 \<le> i \<and> i < int (length (history st))) \<longrightarrow>
      orderbook (handleSeek i st) = orderbook st \<and>
      currentTime (handleSeek i st) = currentTime st)"
  by (simp add: handleSeek_def show_index_def)

text \<open>
  Claim C6. For every value the slider can hand to \<open>handleSeek\<close>, the index after the
  seek is that value and lies inside the history, and the view (snapshot and time) is
  \<open>history[index]\<close>, whatever the play state, which the seek leaves as it is. So a seek
  never leaves the index outside the history, and never leaves the view at another
  snapshot than the one at the index.
\<close>

theorem seek_in_slider_range:
  assumes "slider_offers st i"
  shows "historyIndex (handleSeek i st) = i \<and>
         0 \<le> historyIndex (handleSeek i st) \<and>
         historyIndex (handleSeek i st) < int (length (history (handleSeek i st))) \<and>
         orderbook (handleSeek i st) =
           Some (history (handleSeek i st) ! nat (historyIndex (handleSeek i st))) \<and>
         currentTime (handleSeek i st) =
           Some (timestamp (history (handleSeek i st) ! nat (historyIndex (handleSeek i st)))) \<and>
         history (handleSeek i st) = history st \<and>
         isPlaying (handleSeek i st) = isPlaying st \<and>
         handleSeek i (st\<lparr>isPlaying := playing\<rparr>) = (handleSeek i st)\<lparr>isPlaying := playing\<rparr>"
proof -
  have ne: "history st \<noteq> []" and i0: "0 \<le> i"
    and mx: "i \<le> max (int (length (history st)) - 1) 0"
    using assms unfolding slider_offers_def by blast+
  have len: "0 < int (length (history st))" using ne by simp
  have lt: "i < int (length (history st))"
    using mx len by linarith
  show ?thesis using i0 lt by (simp add: handleSeek_def show_index_def)
qed

theorem seek_in_slider_range_witness:
  "slider_offers (ten_seconds 0) 3 \<and>
   historyIndex (handleSeek 3 (ten_seconds 0)) = 3 \<and>
   orderbook (handleSeek 3 (ten_seconds 0)) = Some (snap 15000) \<and>
   currentTime (handleSeek 3 (ten_seconds 0)) = Some 15000 \<and>
   isPlaying (handleSeek 3 (ten_seconds 0))"
proof -
  have s: "slider_offers (ten_seconds 0) 3"
    by (simp add: slider_offers_def ten_seconds_def)
  show ?thesis
    using seek_in_slider_range [OF s] s
    by (simp add: ten_seconds_def snap_def handleSeek_def show_index_def)
qed


section \<open>The anomaly detector: whales, flags, liquidity history\<close>

subsection \<open>Whales\<close>

lemma set_Set_add: "set (Set_add x s) = insert x (set s)"
  by (auto simp: Set_add_def)

lemma set_whale_loop:
  "set (foldl (\<lambda>w l. if P l then Set_add (price l) w else w) w0 ls) =
     set w0 \<union> {price l | l. l \<in> set ls \<and> P l}"
  by (induction ls arbitrary: w0) (auto simp: set_Set_add)

lemma set_newWhales:
  "set (newWhales rnd b a book) =
     {price l | l. l \<in> set (bids book) \<and> rnd (b * 5) < volume l} \<union>
     {price l | l. l \<in> set (asks book) \<and> rnd (a * 5) < volume l}"
  by (simp add: newWhales_def Let_def set_whale_loop WHALE_THRESHOLD_def)

text \<open>
  Claim C4. After an update the whale set holds exactly the prices of the bid levels whose
  volume exceeds five times the new bid rolling average and of the ask levels whose volume
  exceeds five times the new ask rolling average, where each rolling average is the mean
  of that side's window after the current volumes were pushed and the window was cut to
  its last 100 samples. The set does not depend on the whale set held before.
\<close>

theorem whale_set_replaced:
  "set (whaleOrders (detect rnd now book prevBook st)) =
     {price l | l. l \<in> set (bids book) \<and>
        rnd (rollingAvg_bid (detect rnd now book prevBook st) * 5) < volume l} \<union>
     {price l | l. l \<in> set (asks book) \<and>
        rnd (rollingAvg_ask (detect rnd now book prevBook st) * 5) < volume l} \<and>
   rollingAvg_bid (detect rnd now book prevBook st) =
     average rnd (push_window (volumeHistory_bids st) (map volume (bids book))) \<and>
   rollingAvg_ask (detect rnd now book prevBook st) =
     average rnd (push_window (volumeHistory_asks st) (map volume (asks book))) \<and>
   whaleOrders (detect rnd now book prevBook (st\<lparr>whaleOrders := w\<rparr>)) =
     whaleOrders (detect rnd now book prevBook st)"
  by (simp add: detect_def Let_def set_newWhales)

theorem whale_set_replaced_witness:
  "whaleOrders (detect fl64 1000 whale_book no_book
       (fresh\<lparr>volumeHistory_bids := replicate 9 1, whaleOrders := [7]\<rparr>)) = [100] \<and>
   rollingAvg_bid (detect fl64 1000 whale_book no_book
       (fresh\<lparr>volumeHistory_bids := replicate 9 1\<rparr>)) = fl64 (19 / 10)"
proof -
  have "whaleOrders (detect fl64 1000 whale_book no_book
       (fresh\<lparr>volumeHistory_bids := replicate 9 1\<rparr>)) = [100]"
    by code_simp
  moreover have "rollingAvg_bid (detect fl64 1000 whale_book no_book
       (fresh\<lparr>volumeHistory_bids := replicate 9 1\<rparr>)) = fl64 (19 / 10)"
    by code_simp
  ultimately show ?thesis
    using whale_set_replaced [of fl64 1000 whale_book no_book
        "fresh\<lparr>volumeHistory_bids := replicate 9 1\<rparr>" "[7]"]
    by simp
qed

subsection \<open>Large-order flags\<close>

lemma map_of_set_entries:
  "map_of (foldl (\<lambda>m kv. AList.update (fst kv) (snd kv) m) m es) = map_of m ++ map_of (rev es)"
proof (induction es arbitrary: m)
  case Nil
  show ?case by simp
next
  case (Cons e es)
  have u: "map_of (AList.update (fst e) (snd e) m) = map_of m ++ map_of [e]"
    by (cases e) (simp add: update_conv')
  have "map_of (foldl (\<lambda>m kv. AList.update (fst kv) (snd kv) m) m (e # es)) =
      map_of (AList.update (fst e) (snd e) m) ++ map_of (rev es)"
    by (simp add: Cons.IH)
  also have "\<dots> = map_of m ++ (map_of [e] ++ map_of (rev es))"
    by (simp only: u map_add_assoc)
  also have "map_of [e] ++ map_of (rev es) = map_of (rev (e # es))"
    by (simp only: rev.simps map_of_append)
  finally show ?case .
qed

lemma map_of_Map_of_entries: "map_of (Map_of_entries es) = map_of (rev es)"
  by (simp add: Map_of_entries_def map_of_set_entries)

lemma map_of_rev_distinct:
  assumes "distinct (map fst xs)"
  shows "map_of (rev xs) = map_of xs"
proof
  fix k
  have d: "distinct (map fst (rev xs))" using assms by (simp add: rev_map [symmetric])
  show "map_of (rev xs) k = map_of xs k"
  proof (cases "map_of xs k")
    case None
    then have "k \<notin> fst ` set xs" by (simp add: map_of_eq_None_iff)
    then have "map_of (rev xs) k = None" by (simp add: map_of_eq_None_iff)
    then show ?thesis using None by simp
  next
    case (Some v)
    then have "(k, v) \<in> set (rev xs)" using assms by simp
    then have "map_of (rev xs) k = Some v" using d by (simp only: map_of_eq_Some_iff)
    then show ?thesis using Some by simp
  qed
qed

lemma flags_of_update:
  assumes "flags_of sd ch" "side f = sd"
  shows "flags_of sd (AList.update k f ch)"
  using assms set_update_subset [of k f ch]
  by (auto simp: flags_of_def distinct_update)

lemma flags_of_loop:
  assumes "flags_of sd ch"
  shows "flags_of sd (foldl (\<lambda>ch pv. if P pv then AList.update (fst pv) \<lparr>type = ty, side = sd\<rparr> ch else ch) ch m)"
  using assms by (induction m arbitrary: ch) (simp_all add: flags_of_update)

lemma flags_of_detectChanges: "flags_of sd (changes (detectChanges rnd current previous sd))"
proof -
  have 0: "flags_of sd []" by (simp add: flags_of_def)
  show ?thesis
    unfolding detectChanges_def Let_def detect_result.simps
    by (intro flags_of_loop 0)
qed

text \<open>
  Claim C10. When a price is flagged by the bid side and by the ask side in one update,
  the merged map (the one stored as \<open>flashingPrices\<close>) holds the ask side's flag for it; the
  bid side's flag, with its type and its side tag, is not in the merged map.
\<close>

theorem ask_flag_overwrites_bid_flag:
  assumes "map_of (changes (detectChanges rnd (bids book) (bids prevBook) Bid)) p = Some fb"
    and "map_of (changes (detectChanges rnd (asks book) (asks prevBook) Ask)) p = Some fa"
  shows "map_of (allChanges rnd book prevBook) p = Some fa \<and> side fa = Ask \<and> side fb = Bid \<and>
         flashingPrices (detect rnd now book prevBook st) = allChanges rnd book prevBook"
proof -
  let ?b = "changes (detectChanges rnd (bids book) (bids prevBook) Bid)"
  let ?a = "changes (detectChanges rnd (asks book) (asks prevBook) Ask)"
  have fb: "flags_of Bid ?b" and fa: "flags_of Ask ?a" by (rule flags_of_detectChanges)+
  have "map_of (rev ?a) p = Some fa"
    using fa assms(2) by (simp add: flags_of_def map_of_rev_distinct)
  then have m: "map_of (allChanges rnd book prevBook) p = Some fa"
    by (simp add: allChanges_def Let_def map_of_Map_of_entries)
  have "(p, fa) \<in> set ?a" using assms(2) by (rule map_of_SomeD)
  then have sa: "side fa = Ask" using fa by (auto simp: flags_of_def)
  have "(p, fb) \<in> set ?b" using assms(1) by (rule map_of_SomeD)
  then have sb: "side fb = Bid" using fb by (auto simp: flags_of_def)
  have "allChanges rnd book prevBook \<noteq> []" using m by auto
  then have "flashingPrices (detect rnd now book prevBook st) = allChanges rnd book prevBook"
    by (simp add: detect_def Let_def)
  then show ?thesis using m sa sb by simp
qed

theorem ask_flag_overwrites_bid_flag_witness:
  "changes (detectChanges fl64 (bids crossed_book) (bids crossed_book_before) Bid) =
     [(100, \<lparr>type = Added, side = Bid\<rparr>)] \<and>
   changes (detectChanges fl64 (asks crossed_book) (asks crossed_book_before) Ask) =
     [(100, \<lparr>type = Removed, side = Ask\<rparr>)] \<and>
   map_of (allChanges fl64 crossed_book crossed_book_before) 100 =
     Some \<lparr>type = Removed, side = Ask\<rparr> \<and>
   flashingPrices (detect fl64 1000 crossed_book crossed_book_before fresh) =
     allChanges fl64 crossed_book crossed_book_before"
proof -
  have b: "changes (detectChanges fl64 (bids crossed_book) (bids crossed_book_before) Bid) =
     [(100, \<lparr>type = Added, side = Bid\<rparr>)]"
    by code_simp
  have a: "changes (detectChanges fl64 (asks crossed_book) (asks crossed_book_before) Ask) =
     [(100, \<lparr>type = Removed, side = Ask\<rparr>)]"
    by code_simp
  show ?thesis
    using ask_flag_overwrites_bid_flag [of fl64 crossed_book crossed_book_before 100
        "\<lparr>type = Added, side = Bid\<rparr>" "\<lparr>type = Removed, side = Ask\<rparr>" 1000 fresh]
    by (simp add: a b)
qed




subsection \<open>Liquidity history and spoof alerts\<close>

lemma retained_last:
  "retained now m l \<noteq> [] \<and> last (retained now m l) = \<lparr>time = now, vol = volume l\<rparr>"
  by (simp add: retained_def Let_def SPOOF_DETECTION_WINDOW_def)

lemma retained_young: "\<forall>s \<in> set (retained now m l). now - time s < 3000"
  by (simp add: retained_def Let_def SPOOF_DETECTION_WINDOW_def)

lemma retained_span:
  "time (last (retained now m l)) - time (hd (retained now m l)) < 3000"
proof -
  have "hd (retained now m l) \<in> set (retained now m l)"
    using retained_last [of now m l] by simp
  then have "now - time (hd (retained now m l)) < 3000"
    using retained_young by blast
  then show ?thesis by (simp add: retained_last)
qed

text \<open>
  Claim C8. For every level the effect visits, the span between the first and the last
  retained sample is below the window, so the test on \<open>timeDiff\<close> never fails: the level
  adds an alert exactly when two samples or more are retained, their largest volume
  exceeds \<open>avgVol * 3\<close> and their smallest volume is below \<open>avgVol * 0.5\<close>.
\<close>

theorem spoof_time_guard_vacuous:
  "time (last (retained now m l)) - time (hd (retained now m l)) < SPOOF_DETECTION_WINDOW \<and>
   snd (spoof_step rnd now avgVol (m, alerts) l) =
     (if 2 \<le> length (retained now m l) \<and>
         rnd (avgVol * 3) < Math_max (map vol (retained now m l)) \<and>
         Math_min (map vol (retained now m l)) < rnd (avgVol * (1 / 2))
      then alerts @ [\<lparr>alert_price = price l,
                       maxVol = Math_max (map vol (retained now m l)), alert_time = now\<rparr>]
      else alerts)"
proof -
  have span: "time (last (retained now m l)) - time (hd (retained now m l)) < SPOOF_DETECTION_WINDOW"
    using retained_span [of now m l] by (simp add: SPOOF_DETECTION_WINDOW_def)
  have ne: "0 < length (retained now m l)" using retained_last [of now m l] by simp
  show ?thesis
    using span ne by (simp add: spoof_step_def Let_def)
qed

theorem spoof_time_guard_vacuous_witness:
  "snd (spoof_step fl64 2000 1 (Map.empty(100 \<mapsto> [\<lparr>time = 0, vol = 4\<rparr>]), []) (lvl 100 (1 / 4))) =
     [\<lparr>alert_price = 100, maxVol = 4, alert_time = 2000\<rparr>] \<and>
   retained 2000 (Map.empty(100 \<mapsto> [\<lparr>time = 0, vol = 4\<rparr>])) (lvl 100 (1 / 4)) =
     [\<lparr>time = 0, vol = 4\<rparr>, \<lparr>time = 2000, vol = 1 / 4\<rparr>]"
proof -
  have r: "retained 2000 (Map.empty(100 \<mapsto> [\<lparr>time = 0, vol = 4\<rparr>])) (lvl 100 (1 / 4)) =
     [\<lparr>time = 0, vol = 4\<rparr>, \<lparr>time = 2000, vol = 1 / 4\<rparr>]"
    by (simp add: retained_def lvl_def SPOOF_DETECTION_WINDOW_def)
  have t: "fl64 3 = 3" "fl64 (1 / 2) = 1 / 2" by code_simp+
  show ?thesis
    using spoof_time_guard_vacuous [of 2000 "Map.empty(100 \<mapsto> [\<lparr>time = 0, vol = 4\<rparr>])"
        "lvl 100 (1 / 4)" fl64 1 "[]"]
    by (simp add: r t Math_max_def Math_min_def) (simp add: lvl_def)
qed

lemma spoof_step_map:
  "fst (spoof_step rnd now avgVol acc l) = (fst acc)(price l \<mapsto> retained now (fst acc) l)"
proof -
  have "0 < length (retained now (fst acc) l)" using retained_last [of now "fst acc" l] by simp
  then show ?thesis by (simp add: spoof_step_def Let_def)
qed

lemma spoof_loop_map:
  "(p \<notin> price ` set ls \<longrightarrow> fst (foldl (spoof_step rnd now avgVol) acc ls) p = fst acc p) \<and>
   (p \<in> price ` set ls \<longrightarrow>
      (\<exists>ss. fst (foldl (spoof_step rnd now avgVol) acc ls) p = Some ss \<and> ss \<noteq> [] \<and>
            time (last ss) = now \<and> (\<forall>s \<in> set ss. now - time s < 3000)))"
proof (induction ls rule: rev_induct)
  case Nil
  show ?case by simp
next
  case (snoc l ls)
  let ?acc = "foldl (spoof_step rnd now avgVol) acc ls"
  have step: "fst (foldl (spoof_step rnd now avgVol) acc (ls @ [l])) =
      (fst ?acc)(price l \<mapsto> retained now (fst ?acc) l)"
    by (simp add: spoof_step_map)
  show ?case
  proof (cases "p = price l")
    case True
    have "time (last (retained now (fst ?acc) l)) = now"
      using retained_last [of now "fst ?acc" l] by simp
    then show ?thesis
      using True step retained_last [of now "fst ?acc" l] retained_young [of now "fst ?acc" l]
      by simp
  next
    case False
    then have "fst (foldl (spoof_step rnd now avgVol) acc (ls @ [l])) p = fst ?acc p"
      using step by simp
    moreover have "p \<in> price ` set (ls @ [l]) \<longleftrightarrow> p \<in> price ` set ls"
      using False by auto
    ultimately show ?thesis using snoc.IH by simp
  qed
qed

text \<open>
  What the loop over the current levels does to the mapping. After an update, every price
  of the current snapshot has a non-empty sample list whose last sample is the one taken
  now and whose samples are all younger than the 3 s window. The loop does not visit a
  price that is not in the current snapshot: its list is the list held before the update.
  The \<open>delete\<close> of the loop is never reached, because the sample pushed for the current
  snapshot always passes the filter.
\<close>

lemma liquidity_purged_on_touch:
  "(\<forall>p \<in> price ` set (bids book @ asks book).
      \<exists>ss. recentLiquidity (detect rnd now book prevBook st) p = Some ss \<and> ss \<noteq> [] \<and>
           time (last ss) = now \<and> (\<forall>s \<in> set ss. now - time s < 3000)) \<and>
   (\<forall>p. p \<notin> price ` set (bids book @ asks book) \<longrightarrow>
      recentLiquidity (detect rnd now book prevBook st) p = recentLiquidity st p) \<and>
   dom (recentLiquidity st) \<subseteq> dom (recentLiquidity (detect rnd now book prevBook st))"
proof -
  define avgVol where "avgVol =
    rnd (rnd (average rnd (push_window (volumeHistory_bids st) (map volume (bids book))) +
              average rnd (push_window (volumeHistory_asks st) (map volume (asks book)))) / 2)"
  have r: "recentLiquidity (detect rnd now book prevBook st) =
      fst (foldl (spoof_step rnd now avgVol) (recentLiquidity st, []) (bids book @ asks book))"
    by (simp add: detect_def Let_def avgVol_def)
  note loop = spoof_loop_map [of _ "bids book @ asks book" rnd now avgVol "(recentLiquidity st, [])"]
  have 1: "\<forall>p \<in> price ` set (bids book @ asks book).
      \<exists>ss. recentLiquidity (detect rnd now book prevBook st) p = Some ss \<and> ss \<noteq> [] \<and>
           time (last ss) = now \<and> (\<forall>s \<in> set ss. now - time s < 3000)"
    unfolding r using loop by blast
  have 2: "\<forall>p. p \<notin> price ` set (bids book @ asks book) \<longrightarrow>
      recentLiquidity (detect rnd now book prevBook st) p = recentLiquidity st p"
    unfolding r using loop by simp
  have 3: "dom (recentLiquidity st) \<subseteq> dom (recentLiquidity (detect rnd now book prevBook st))"
  proof
    fix p assume "p \<in> dom (recentLiquidity st)"
    then show "p \<in> dom (recentLiquidity (detect rnd now book prevBook st))"
      using 1 2 by (cases "p \<in> price ` set (bids book @ asks book)") (auto simp: dom_def)
  qed
  show ?thesis using 1 2 3 by blast
qed

text \<open>
  Claim C3 fails for a price that leaves the book. The bid at 100 is seen at time 0; the
  snapshot processed at time 5000 has no level at 100. After that update the mapping still
  holds, under the price 100, the sample of time 0, which is 5000 ms old: it was neither
  purged nor was the price removed. The prices of the current snapshot (99 and 101) hold
  the sample of time 5000 only.
\<close>

theorem stale_sample_kept:
  "recentLiquidity (detect fl64 0 bid_at_100 no_book fresh) 100 = Some [\<lparr>time = 0, vol = 1\<rparr>] \<and>
   recentLiquidity (detect fl64 5000 bid_at_99 bid_at_100 (detect fl64 0 bid_at_100 no_book fresh))
     100 = Some [\<lparr>time = 0, vol = 1\<rparr>] \<and>
   recentLiquidity (detect fl64 5000 bid_at_99 bid_at_100 (detect fl64 0 bid_at_100 no_book fresh))
     99 = Some [\<lparr>time = 5000, vol = 1\<rparr>] \<and>
   recentLiquidity (detect fl64 5000 bid_at_99 bid_at_100 (detect fl64 0 bid_at_100 no_book fresh))
     101 = Some [\<lparr>time = 5000, vol = 1\<rparr>] \<and>
   \<not> (5000 - 0 < SPOOF_DETECTION_WINDOW)"
  by (simp add: detect_def Let_def bid_at_99_def bid_at_100_def no_book_def fresh_def lvl_def
      spoof_step_def retained_def SPOOF_DETECTION_WINDOW_def)


section \<open>Tick aggregation: aggregating twice\<close>

lemma update_new_key: "k \<notin> fst ` set al \<Longrightarrow> AList.update k v al = al @ [(k, v)]"
  by (induction al) auto

lemma agg_step_dom:
  "fst ` set (agg_step rnd t b m lv) = insert (roundedPrice rnd b t (price lv)) (fst ` set m)"
  by (auto simp: agg_step_def Let_def dom_update split: option.split)

lemma agg_fold_dom:
  "fst ` set (foldl (agg_step rnd t b) m orders) =
     fst ` set m \<union> roundedPrice rnd b t ` price ` set orders"
  by (induction orders arbitrary: m) (auto simp: agg_step_dom)

lemma agg_fold_distinct:
  "distinct (map fst m) \<Longrightarrow> distinct (map fst (foldl (agg_step rnd t b) m orders))"
  by (induction orders arbitrary: m) (simp_all add: agg_step_keys)

lemma agg_fold_stable:
  assumes "distinct (map price ls)"
    and "\<forall>l \<in> set ls. roundedPrice rnd b t (price l) = price l"
    and "price ` set ls \<inter> fst ` set m = {}"
  shows "foldl (agg_step rnd t b) m ls = m @ map (\<lambda>l. (price l, volume l)) ls"
  using assms
proof (induction ls arbitrary: m)
  case Nil
  show ?case by simp
next
  case (Cons l ls)
  have rp: "roundedPrice rnd b t (price l) = price l" using Cons.prems(2) by simp
  have new: "price l \<notin> fst ` set m" using Cons.prems(3) by auto
  then have none: "map_of m (price l) = None" by (simp add: map_of_eq_None_iff)
  have step: "agg_step rnd t b m l = m @ [(price l, volume l)]"
    by (simp add: agg_step_def rp none update_new_key [OF new])
  have d: "distinct (map price ls)" and s: "\<forall>l \<in> set ls. roundedPrice rnd b t (price l) = price l"
    using Cons.prems(1,2) by simp_all
  have disj: "price ` set ls \<inter> fst ` set (m @ [(price l, volume l)]) = {}"
    using Cons.prems(1,3) by auto
  show ?case using Cons.IH [OF d s disj] step by simp
qed

lemma entry_of_truncate:
  fixes a :: aggregated
  shows "total a = 0 \<Longrightarrow> entry (price (level.truncate a), volume (level.truncate a)) = a"
  by (cases a) (simp add: entry_def level.truncate_def)

lemma reaggregate_stable:
  assumes "tick_stable rnd orders t b"
  shows "reaggregate rnd orders t b = aggregateByTickSize rnd orders t b"
proof -
  let ?m = "foldl (agg_step rnd t b) [] orders"
  define f :: "aggregated \<Rightarrow> rat" where "f = (if b then (\<lambda>a. - price a) else (\<lambda>a. price a))"
  define S where "S = sort_key f (map entry ?m)"
  have agg: "aggregateByTickSize rnd ls t b = sort_key f (map entry (foldl (agg_step rnd t b) [] ls))"
    for ls by (simp add: aggregateByTickSize_def f_def)
  have S: "aggregateByTickSize rnd orders t b = S" by (simp add: agg S_def)
  have setS: "set S = entry ` set ?m" by (simp add: S_def)
  have total0: "\<forall>a \<in> set S. total a = 0" by (auto simp: setS entry_def)
  have dm: "distinct (map fst ?m)" by (rule agg_fold_distinct) simp
  have pe: "map price (map entry ?m) = map fst ?m" by (simp add: entry_def)
  have "distinct (map price (map entry ?m))" using dm by (simp only: pe)
  then have dS: "distinct (map price S)"
    unfolding S_def by (simp only: distinct_map distinct_sort set_sort)
  have keys: "price ` set S = roundedPrice rnd b t ` price ` set orders"
  proof -
    have "price ` set S = (price \<circ> entry) ` set ?m" by (simp add: setS image_comp)
    also have "price \<circ> entry = fst" by (simp add: fun_eq_iff entry_def)
    finally have "price ` set S = fst ` set ?m" .
    then show ?thesis by (simp add: agg_fold_dom)
  qed
  have stable: "\<forall>a \<in> set S. roundedPrice rnd b t (price a) = price a"
  proof
    fix a assume "a \<in> set S"
    then have "price a \<in> roundedPrice rnd b t ` price ` set orders" using keys by blast
    then show "roundedPrice rnd b t (price a) = price a"
      using assms by (auto simp: tick_stable_def)
  qed
  let ?ls = "map level.truncate S"
  have pl: "map price ?ls = map price S" by (simp add: level.truncate_def)
  have "foldl (agg_step rnd t b) [] ?ls = [] @ map (\<lambda>l. (price l, volume l)) ?ls"
  proof (rule agg_fold_stable)
    show "distinct (map price ?ls)" using dS by (simp only: pl)
    show "\<forall>l \<in> set ?ls. roundedPrice rnd b t (price l) = price l"
      using stable by (simp add: level.truncate_def)
    show "price ` set ?ls \<inter> fst ` set [] = {}" by simp
  qed
  then have "map entry (foldl (agg_step rnd t b) [] ?ls) =
      map (\<lambda>a. entry (price (level.truncate a), volume (level.truncate a))) S"
    by (simp add: comp_def)
  also have "\<dots> = S"
    using total0 by (simp add: entry_of_truncate map_idI)
  finally have "aggregateByTickSize rnd ?ls t b = sort_key f S" by (simp add: agg)
  also have "sorted (map f S)" by (simp add: S_def)
  then have "sort_key f S = S" by (rule sort_key_id_if_sorted)
  finally show ?thesis by (simp add: reaggregate_def S)
qed

lemma roundedPrice_exact_stable:
  assumes "0 < t"
  shows "roundedPrice exact b t (roundedPrice exact b t p) = roundedPrice exact b t p"
  using assms by (simp add: roundedPrice_def exact_def)


text \<open>In arithmetic without rounding every tick size above 0 is stable.\<close>

lemma reaggregate_exact:
  assumes "0 < t"
  shows "reaggregate exact orders t b = aggregateByTickSize exact orders t b"
proof -
  have "tick_stable exact orders t b"
    using assms by (simp add: tick_stable_def roundedPrice_exact_stable)
  then show ?thesis by (rule reaggregate_stable)
qed





end
